theory Spec2Isabelle
  imports Main "HOL-Library.Word" "HOL-Library.Monad_Syntax"
begin

unbundle bit_operations_syntax

section \<open>The IPv4 FIB trie of net/ipv4/fib\_trie.c\<close>

text \<open>
  A shallow embedding of the level- and path-compressed trie of
  \<^verbatim>\<open>src/net/ipv4/fib_trie.c\<close>.

  Machine integers: \<^verbatim>\<open>t_key\<close> (unsigned int) is a 32-bit word, \<^verbatim>\<open>unsigned long\<close> is a
  64-bit word (\<^verbatim>\<open>BITS_PER_LONG = 64\<close>, so that \<^verbatim>\<open>BITS_PER_LONG > KEYLENGTH\<close>).
  The \<^verbatim>\<open>unsigned char\<close> fields \<^verbatim>\<open>pos\<close>, \<^verbatim>\<open>bits\<close>, \<^verbatim>\<open>slen\<close> are natural numbers; C
  promotes them to \<^verbatim>\<open>int\<close> in every expression, and a store into such a field is
  written with its truncation \<open>mod 256\<close> wherever the stored value is computed.
\<close>

type_synonym t_key = "32 word"
type_synonym ulong = "64 word"

definition KEYLENGTH :: nat where
  "KEYLENGTH = 32"

subsection \<open>Routes: fib\_info, fib\_alias\<close>

text \<open>
  \<^verbatim>\<open>struct fib_nh_common\<close> and \<^verbatim>\<open>struct fib_info\<close> are owned by other files; only
  the fields that fib\_trie.c reads are kept. \<^verbatim>\<open>nhc_ignore_linkdown\<close> is the value of
  \<^verbatim>\<open>ip_ignore_linkdown(nhc->nhc_dev)\<close>. Two \<^verbatim>\<open>fib_info\<close> pointers are compared by the
  value they point to.
\<close>

record fib_nh_common =
  nhc_dead :: bool
  nhc_linkdown :: bool
  nhc_ignore_linkdown :: bool
  nhc_oif :: nat

record fib_info =
  fib_priority :: nat
  fib_scope :: nat
  fib_dead :: bool
  fib_flags_dead :: bool
  fib_nh_is_blackhole :: bool
  fib_nhs :: "fib_nh_common list"
  fib_prefsrc :: nat
  fib_protocol :: nat

record fib_alias =
  fa_info :: fib_info
  fa_tos :: nat
  fa_type :: nat
  fa_accessed :: bool
  fa_slen :: nat
  tb_id :: nat

subsection \<open>struct key\_vector and struct tnode\<close>

text \<open>
  One constructor with the fields of \<^verbatim>\<open>struct key_vector\<close> and of the enclosing
  \<^verbatim>\<open>struct tnode\<close>. The union of the C struct is two fields: \<open>leaf\<close> (the hlist of
  aliases, head first) and \<open>tyesde\<close> (the child array, \<open>None\<close> for a NULL slot).
  The parent pointer is not stored: a pointer to a node of the trie is the list of
  child indices leading to it from the root (\<open>[]\<close> is the root \<^verbatim>\<open>t->kv\<close>), so
  \<^verbatim>\<open>node_parent\<close> drops the last index.
\<close>

datatype key_vector =
  KV (key: t_key) (pos: nat) (bits: nat) (slen: nat)
     (leaf: "fib_alias list") (tyesde: "key_vector option list")
     (empty_children: t_key) (full_children: t_key)

definition IS_TRIE :: "key_vector \<Rightarrow> bool" where
  "IS_TRIE n = (pos n \<ge> KEYLENGTH)"

definition IS_TNODE :: "key_vector \<Rightarrow> bool" where
  "IS_TNODE n = (bits n \<noteq> 0)"

definition IS_LEAF :: "key_vector \<Rightarrow> bool" where
  "IS_LEAF n = (bits n = 0)"

definition child_length :: "key_vector \<Rightarrow> ulong" where
  "child_length tn = (push_bit (bits tn) 1) AND NOT 1"

subsection \<open>The resize thresholds\<close>

definition halve_threshold :: ulong where "halve_threshold = 25"
definition inflate_threshold :: ulong where "inflate_threshold = 50"
definition halve_threshold_root :: ulong where "halve_threshold_root = 15"
definition inflate_threshold_root :: ulong where "inflate_threshold_root = 30"

definition should_inflate :: "key_vector \<Rightarrow> key_vector \<Rightarrow> bool" where
  "should_inflate tp tn =
     (let used0 = child_length tn;
          threshold = used0 * (if IS_TRIE tp then inflate_threshold_root else inflate_threshold);
          used1 = used0 - ucast (empty_children tn);
          used = used1 + ucast (full_children tn)
      in used > 1 \<and> pos tn \<noteq> 0 \<and> 50 * used \<ge> threshold)"

definition should_halve :: "key_vector \<Rightarrow> key_vector \<Rightarrow> bool" where
  "should_halve tp tn =
     (let used0 = child_length tn;
          threshold = used0 * (if IS_TRIE tp then halve_threshold_root else halve_threshold);
          used = used0 - ucast (empty_children tn)
      in used > 1 \<and> bits tn > 1 \<and> 100 * used < threshold)"

definition should_collapse :: "key_vector \<Rightarrow> bool" where
  "should_collapse tn =
     (let used0 = child_length tn - ucast (empty_children tn);
          used = (if bits tn = KEYLENGTH \<and> full_children tn \<noteq> 0
                  then used0 - 0xFFFFFFFF else used0)
      in used < 2)"

text \<open>
  The quantities the documentation of \<^verbatim>\<open>should_inflate\<close> speaks of, as natural
  numbers: the capacity \<open>2 ^ bits\<close>, the non-empty slots, and the threshold in percent.
\<close>

definition capacity :: "key_vector \<Rightarrow> nat" where
  "capacity tn = 2 ^ bits tn"

definition occupied :: "key_vector \<Rightarrow> nat" where
  "occupied tn = capacity tn - unat (empty_children tn)"

definition inflate_percent :: "key_vector \<Rightarrow> nat" where
  "inflate_percent tp = (if IS_TRIE tp then 30 else 50)"

text \<open>The counters of a node are honest: they count slots of its array.\<close>

definition counters_ok :: "key_vector \<Rightarrow> bool" where
  "counters_ok tn =
     (1 \<le> bits tn \<and> pos tn + bits tn \<le> KEYLENGTH \<and>
      (if bits tn = KEYLENGTH
       then empty_children tn = 0 \<and> full_children tn \<le> 1
       else unat (empty_children tn) \<le> capacity tn \<and>
            unat (full_children tn) \<le> occupied tn))"


subsection \<open>The alias list of a leaf\<close>

text \<open>
  \<^verbatim>\<open>fib_find_alias\<close>: the position (counted from the head of the hlist) of the first
  alias it returns, \<open>None\<close> for NULL. Callers pass \<^verbatim>\<open>&l->leaf\<close> of an existing leaf.
\<close>

fun fib_find_alias :: "fib_alias list \<Rightarrow> nat \<Rightarrow> nat \<Rightarrow> nat \<Rightarrow> nat \<Rightarrow> nat option" where
  "fib_find_alias [] slen' tos prio tb = None"
| "fib_find_alias (fa # fah) slen' tos prio tb =
     (if fa_slen fa < slen' then map_option Suc (fib_find_alias fah slen' tos prio tb)
      else if fa_slen fa \<noteq> slen' then None
      else if tb_id fa > tb then map_option Suc (fib_find_alias fah slen' tos prio tb)
      else if tb_id fa \<noteq> tb then None
      else if fa_tos fa > tos then map_option Suc (fib_find_alias fah slen' tos prio tb)
      else if fib_priority (fa_info fa) \<ge> prio \<or> fa_tos fa < tos then Some 0
      else map_option Suc (fib_find_alias fah slen' tos prio tb))"

text \<open>
  The scan of \<^verbatim>\<open>fib_insert_alias\<close> for \<^verbatim>\<open>fa == NULL\<close> (lines 1081-1093): the new alias
  goes behind the last entry the loop passed, or to the head.
\<close>

fun insert_behind_last :: "fib_alias \<Rightarrow> fib_alias list \<Rightarrow> fib_alias list" where
  "insert_behind_last new [] = [new]"
| "insert_behind_last new (lst # rest) =
     (if fa_slen new < fa_slen lst then new # lst # rest
      else if fa_slen new = fa_slen lst \<and> tb_id new > tb_id lst then new # lst # rest
      else lst # insert_behind_last new rest)"

text \<open>
  The list part of \<^verbatim>\<open>fib_insert_alias\<close> for an existing leaf (lines 1076-1094):
  \<^verbatim>\<open>hlist_add_before_rcu\<close> at the caller's position \<open>fa\<close>, or the scan.
\<close>

definition fib_insert_alias_list ::
  "fib_alias list \<Rightarrow> fib_alias \<Rightarrow> nat option \<Rightarrow> fib_alias list" where
  "fib_insert_alias_list fah new fa =
     (case fa of
        Some i \<Rightarrow> take i fah @ new # drop i fah
      | None \<Rightarrow> insert_behind_last new fah)"

text \<open>
  The order the code keeps: ascending suffix length, and descending table id among
  equal suffix lengths. The order the specification names: descending suffix length,
  ascending table id.
\<close>

definition alias_before :: "fib_alias \<Rightarrow> fib_alias \<Rightarrow> bool" where
  "alias_before a b =
     (fa_slen a < fa_slen b \<or> (fa_slen a = fa_slen b \<and> tb_id a \<ge> tb_id b))"

definition spec_alias_before :: "fib_alias \<Rightarrow> fib_alias \<Rightarrow> bool" where
  "spec_alias_before a b =
     (fa_slen a > fa_slen b \<or> (fa_slen a = fa_slen b \<and> tb_id a \<le> tb_id b))"

definition same_section :: "fib_alias \<Rightarrow> fib_alias \<Rightarrow> bool" where
  "same_section a b = (fa_slen a = fa_slen b \<and> tb_id a = tb_id b)"

text \<open>
  The positions \<^verbatim>\<open>fib_table_insert\<close> hands to \<^verbatim>\<open>fib_insert_alias\<close>: NULL, an alias of
  the section (suffix length and table) of the new alias, or the alias that follows
  one of that section.
\<close>

definition caller_position :: "fib_alias list \<Rightarrow> fib_alias \<Rightarrow> nat option \<Rightarrow> bool" where
  "caller_position fah new fa =
     (case fa of
        None \<Rightarrow> True
      | Some i \<Rightarrow> i < length fah \<and>
          (same_section (fah ! i) new \<or> (0 < i \<and> same_section (fah ! (i - 1)) new)))"

subsection \<open>Validation of a prefix\<close>

text \<open>\<^verbatim>\<open>plen\<close> is a \<^verbatim>\<open>u8\<close>; \<^verbatim>\<open>key << plen\<close> is a 32-bit shift.\<close>

definition fib_valid_key_len :: "t_key \<Rightarrow> nat \<Rightarrow> bool" where
  "fib_valid_key_len k plen =
     (if plen > KEYLENGTH then False
      else if plen < KEYLENGTH \<and> push_bit plen k \<noteq> 0 then False
      else True)"

subsection \<open>Writing a field\<close>

definition set_slen :: "nat \<Rightarrow> key_vector \<Rightarrow> key_vector" where
  "set_slen v n = KV (key n) (pos n) (bits n) v (leaf n) (tyesde n)
                     (empty_children n) (full_children n)"

definition set_leaf :: "fib_alias list \<Rightarrow> key_vector \<Rightarrow> key_vector" where
  "set_leaf v n = KV (key n) (pos n) (bits n) (slen n) v (tyesde n)
                     (empty_children n) (full_children n)"

definition set_tyesde :: "key_vector option list \<Rightarrow> key_vector \<Rightarrow> key_vector" where
  "set_tyesde v n = KV (key n) (pos n) (bits n) (slen n) (leaf n) v
                       (empty_children n) (full_children n)"

definition set_empty_children :: "t_key \<Rightarrow> key_vector \<Rightarrow> key_vector" where
  "set_empty_children v n = KV (key n) (pos n) (bits n) (slen n) (leaf n) (tyesde n)
                               v (full_children n)"

definition set_full_children :: "t_key \<Rightarrow> key_vector \<Rightarrow> key_vector" where
  "set_full_children v n = KV (key n) (pos n) (bits n) (slen n) (leaf n) (tyesde n)
                              (empty_children n) v"

subsection \<open>Children and indices\<close>

text \<open>
  \<^verbatim>\<open>get_child(tn, i)\<close>. The array of a node made by \<^verbatim>\<open>tnode_new\<close> has \<open>2 ^ bits\<close> slots
  and the root has one; a slot outside the array reads as NULL here.
\<close>

definition get_child :: "key_vector \<Rightarrow> nat \<Rightarrow> key_vector option" where
  "get_child tn i = (if i < length (tyesde tn) then tyesde tn ! i else None)"

definition get_cindex :: "t_key \<Rightarrow> key_vector \<Rightarrow> ulong" where
  "get_cindex k kv = ucast (drop_bit (pos kv) (k XOR key kv))"

definition get_index :: "t_key \<Rightarrow> key_vector \<Rightarrow> ulong" where
  "get_index k kv = drop_bit (pos kv) (ucast (k XOR key kv))"

definition empty_child_inc :: "key_vector \<Rightarrow> key_vector" where
  "empty_child_inc n =
     (let n1 = set_empty_children (empty_children n + 1) n
      in if empty_children n1 = 0 then set_full_children (full_children n1 + 1) n1 else n1)"

definition empty_child_dec :: "key_vector \<Rightarrow> key_vector" where
  "empty_child_dec n =
     (let n1 = (if empty_children n = 0 then set_full_children (full_children n - 1) n else n)
      in set_empty_children (empty_children n1 - 1) n1)"

subsection \<open>Allocation\<close>

text \<open>
  Every allocation (\<^verbatim>\<open>kmem_cache_alloc\<close>, \<^verbatim>\<open>kzalloc\<close>, \<^verbatim>\<open>vzalloc\<close>) asks the oracle: the
  list holds the outcomes of the coming allocations, \<open>False\<close> for NULL; when the list
  is used up every allocation succeeds.
\<close>

definition alloc :: "bool list \<Rightarrow> bool \<times> bool list" where
  "alloc al = (case al of [] \<Rightarrow> (True, []) | b # bs \<Rightarrow> (b, bs))"

definition leaf_new :: "t_key \<Rightarrow> fib_alias \<Rightarrow> bool list \<Rightarrow> key_vector option \<times> bool list" where
  "leaf_new k fa al =
     (case alloc al of
        (False, al') \<Rightarrow> (None, al')
      | (True, al') \<Rightarrow> (Some (KV k 0 0 (fa_slen fa) [fa] [] 0 0), al'))"

text \<open>\<^verbatim>\<open>TNODE_VMALLOC_MAX\<close> for a 64-bit \<^verbatim>\<open>size_t\<close> and 8-byte pointers.\<close>

definition TNODE_VMALLOC_MAX :: int where
  "TNODE_VMALLOC_MAX = 60"

text \<open>
  \<^verbatim>\<open>tnode_new(key, pos, bits)\<close> with its \<^verbatim>\<open>int\<close> arguments. The outer \<open>None\<close> is the
  \<^verbatim>\<open>BUG_ON\<close> (or a negative shift count); the inner one is NULL from \<^verbatim>\<open>tnode_alloc\<close>.
\<close>

definition tyesde_new ::
  "t_key \<Rightarrow> int \<Rightarrow> int \<Rightarrow> bool list \<Rightarrow> (key_vector option \<times> bool list) option" where
  "tyesde_new k p b al =
     (let shift = (p + b) mod 2 ^ 32
      in if b = 0 \<or> shift > int KEYLENGTH \<or> b < 0 then None
         else if b > TNODE_VMALLOC_MAX then Some (None, al)
         else (case alloc al of
                 (False, al') \<Rightarrow> Some (None, al')
               | (True, al') \<Rightarrow>
                   Some (Some (KV (if shift < int KEYLENGTH
                                   then push_bit (nat shift) (drop_bit (nat shift) k) else 0)
                                  (nat (p mod 256)) (nat (b mod 256)) (nat (p mod 256))
                                  [] (replicate (2 ^ nat b) None)
                                  (if b = int KEYLENGTH then 0
                                   else ucast (push_bit (nat b) (1::ulong)))
                                  (if b = int KEYLENGTH then 1 else 0)),
                         al')))"

definition tyesde_full :: "key_vector \<Rightarrow> key_vector option \<Rightarrow> bool" where
  "tyesde_full tn n =
     (case n of None \<Rightarrow> False
      | Some c \<Rightarrow> pos c + bits c = pos tn \<and> IS_TNODE c)"

text \<open>\<^verbatim>\<open>put_child(tn, i, n)\<close> on the node \<open>tn\<close>; \<open>None\<close> is the \<^verbatim>\<open>BUG_ON\<close>.\<close>

definition put_child :: "key_vector \<Rightarrow> nat \<Rightarrow> key_vector option \<Rightarrow> key_vector option" where
  "put_child tn i n =
     (let chi = get_child tn i
      in if i \<ge> unat (child_length tn) then None
         else
           let tn1 = (if n = None \<and> chi \<noteq> None then empty_child_inc tn else tn);
               tn2 = (if n \<noteq> None \<and> chi = None then empty_child_dec tn1 else tn1);
               wasfull = tyesde_full tn2 chi;
               isfull = tyesde_full tn2 n;
               tn3 = (if wasfull \<and> \<not> isfull then set_full_children (full_children tn2 - 1) tn2
                      else if \<not> wasfull \<and> isfull
                           then set_full_children (full_children tn2 + 1) tn2
                      else tn2);
               tn4 = (case n of None \<Rightarrow> tn3
                      | Some c \<Rightarrow> if slen tn3 < slen c then set_slen (slen c) tn3 else tn3)
           in Some (set_tyesde ((tyesde tn4)[i := n]) tn4))"

definition put_child_root ::
  "key_vector \<Rightarrow> t_key \<Rightarrow> key_vector option \<Rightarrow> key_vector option" where
  "put_child_root tp k n =
     (if IS_TRIE tp then Some (set_tyesde ((tyesde tp)[0 := n]) tp)
      else put_child tp (unat (get_index k tp)) n)"

subsection \<open>Pointers into the trie\<close>

text \<open>
  The node a pointer (a path from the root) leads to, and a write through a pointer.
  \<open>None\<close>: the path leaves the trie.
\<close>

fun get_kv :: "key_vector \<Rightarrow> nat list \<Rightarrow> key_vector option" where
  "get_kv n [] = Some n"
| "get_kv n (i # p) = (case get_child n i of None \<Rightarrow> None | Some c \<Rightarrow> get_kv c p)"

fun at_path ::
  "nat list \<Rightarrow> (key_vector \<Rightarrow> key_vector option) \<Rightarrow> key_vector \<Rightarrow> key_vector option" where
  "at_path [] f n = f n"
| "at_path (i # p) f n =
     (case get_child n i of
        None \<Rightarrow> None
      | Some c \<Rightarrow>
          (case at_path p f c of
             None \<Rightarrow> None
           | Some c' \<Rightarrow> Some (set_tyesde ((tyesde n)[i := Some c']) n)))"

text \<open>The slot of its parent through which \<^verbatim>\<open>put_child_root(tp, key, _)\<close> writes.\<close>

definition root_slot :: "key_vector \<Rightarrow> t_key \<Rightarrow> nat" where
  "root_slot tp k = (if IS_TRIE tp then 0 else unat (get_index k tp))"

subsection \<open>Suffix lengths\<close>

text \<open>
  The loop of \<^verbatim>\<open>update_suffix\<close>. The stride is a power of two, \<open>2 ^ k\<close>, so
  \<^verbatim>\<open>i &= ~(stride - 1)\<close> rounds \<open>i\<close> down to a multiple of it. \<open>None\<close>: the shift
  \<^verbatim>\<open>stride <<= n->slen - slen\<close> leaves the 64 bits of \<^verbatim>\<open>unsigned long\<close>.
\<close>

function update_suffix_loop ::
  "key_vector \<Rightarrow> nat \<Rightarrow> nat \<Rightarrow> nat \<Rightarrow> nat \<Rightarrow> nat option" where
  "update_suffix_loop tn slen_max i k sl =
     (if i < unat (child_length tn) then
        (case get_child tn i of
           None \<Rightarrow> update_suffix_loop tn slen_max (i + 2 ^ k) k sl
         | Some n \<Rightarrow>
             if slen n \<le> sl then update_suffix_loop tn slen_max (i + 2 ^ k) k sl
             else
               let k' = k + (slen n - sl);
                   sl' = slen n;
                   i' = (i div 2 ^ k') * 2 ^ k'
               in if k' \<ge> 64 then None
                  else if sl' \<ge> slen_max then Some sl'
                  else update_suffix_loop tn slen_max (i' + 2 ^ k') k' sl')
      else Some sl)"
  by pat_completeness auto
termination
proof (relation "measure (\<lambda>(tn, slen_max, i, k, sl). unat (child_length tn) - i)")
  show "wf (measure (\<lambda>(tn, slen_max, i, k, sl). unat (child_length tn) - i))" by simp
next
  fix tn :: key_vector and slen_max i k sl :: nat
  assume "i < unat (child_length tn)"
  moreover have "(0::nat) < 2 ^ k" by simp
  ultimately have "unat (child_length tn) - (i + 2 ^ k) < unat (child_length tn) - i"
    by linarith
  then show "((tn, slen_max, i + 2 ^ k, k, sl), (tn, slen_max, i, k, sl))
      \<in> measure (\<lambda>(tn, slen_max, i, k, sl). unat (child_length tn) - i)"
    by simp
next
  fix tn :: key_vector and slen_max i k sl :: nat and n :: key_vector
  assume "i < unat (child_length tn)"
  moreover have "(0::nat) < 2 ^ k" by simp
  ultimately have "unat (child_length tn) - (i + 2 ^ k) < unat (child_length tn) - i"
    by linarith
  then show "((tn, slen_max, i + 2 ^ k, k, sl), (tn, slen_max, i, k, sl))
      \<in> measure (\<lambda>(tn, slen_max, i, k, sl). unat (child_length tn) - i)"
    by simp
next
  fix tn :: key_vector and slen_max i k sl :: nat and n :: key_vector and k' sl' i' :: nat
  assume a: "i < unat (child_length tn)" and k': "k' = k + (slen n - sl)"
    and i': "i' = i div 2 ^ k' * 2 ^ k'"
  have "i mod 2 ^ k' < 2 ^ k'" by simp
  then have "i < i div 2 ^ k' * 2 ^ k' + 2 ^ k'"
    using div_mult_mod_eq [of i "2 ^ k'"] by linarith
  then show "((tn, slen_max, i' + 2 ^ k', k', sl'), (tn, slen_max, i, k, sl))
      \<in> measure (\<lambda>(tn, slen_max, i, k, sl). unat (child_length tn) - i)"
    using a i' by simp
qed

declare update_suffix_loop.simps [simp del]

text \<open>\<^verbatim>\<open>update_suffix(tn)\<close>: the new suffix length and the node with it stored.\<close>

definition update_suffix :: "key_vector \<Rightarrow> (nat \<times> key_vector) option" where
  "update_suffix tn =
     (let slen_max = min (nat ((int (pos tn) + int (bits tn) - 1) mod 256)) (slen tn)
      in case update_suffix_loop tn slen_max 0 1 (pos tn) of
           None \<Rightarrow> None
         | Some sl \<Rightarrow> Some (sl, set_slen sl tn))"

text \<open>
  \<^verbatim>\<open>node_pull_suffix(tn, slen)\<close> and \<^verbatim>\<open>node_push_suffix(tn, slen)\<close> on the trie \<open>t\<close>,
  with \<open>tn\<close> a pointer. \<open>None\<close>: the walk reads a pointer that leaves the trie, or
  takes the parent of the root.
\<close>

function node_pull_suffix :: "key_vector \<Rightarrow> nat list \<Rightarrow> nat \<Rightarrow> key_vector option" where
  "node_pull_suffix t tn sl =
     (case get_kv t tn of
        None \<Rightarrow> None
      | Some n \<Rightarrow>
          if slen n > pos n \<and> slen n > sl then
            (case update_suffix n of
               None \<Rightarrow> None
             | Some (sl', n') \<Rightarrow>
                 (case at_path tn (\<lambda>_. Some n') t of
                    None \<Rightarrow> None
                  | Some t' \<Rightarrow>
                      if slen n = sl' then Some t'
                      else if tn = [] then None
                      else node_pull_suffix t' (butlast tn) sl'))
          else Some t)"
  by pat_completeness auto
termination
  by (relation "measure (\<lambda>(t, tn, sl). length tn)") auto

declare node_pull_suffix.simps [simp del]

function node_push_suffix :: "key_vector \<Rightarrow> nat list \<Rightarrow> nat \<Rightarrow> key_vector option" where
  "node_push_suffix t tn sl =
     (case get_kv t tn of
        None \<Rightarrow> None
      | Some n \<Rightarrow>
          if slen n < sl then
            (case at_path tn (\<lambda>m. Some (set_slen sl m)) t of
               None \<Rightarrow> None
             | Some t' \<Rightarrow>
                 if tn = [] then None else node_push_suffix t' (butlast tn) sl)
          else Some t)"
  by pat_completeness auto
termination
  by (relation "measure (\<lambda>(t, tn, sl). length tn)") auto

declare node_push_suffix.simps [simp del]

subsection \<open>fib\_find\_node\<close>

lemma size_get_child: "get_child pn i = Some n \<Longrightarrow> size n < size pn"
proof -
  assume a: "get_child pn i = Some n"
  then have "Some n \<in> set (tyesde pn)"
    by (metis get_child_def nth_mem option.distinct(1))
  then have "size_option size (Some n) \<le> size_list (size_option size) (tyesde pn)"
    by (rule size_list_estimation') simp
  then show ?thesis by (cases pn) simp
qed

text \<open>
  The loop of \<^verbatim>\<open>fib_find_node\<close>: \<open>pn\<close> is the node at pointer \<open>p\<close>. The result is the
  returned leaf (\<open>None\<close> for NULL) and the pointer stored in \<^verbatim>\<open>*tp\<close>.
\<close>

function fib_find_yesde_loop ::
  "t_key \<Rightarrow> key_vector \<Rightarrow> nat list \<Rightarrow> nat \<Rightarrow> nat list option \<times> nat list" where
  "fib_find_yesde_loop k pn p index =
     (case get_child pn index of
        None \<Rightarrow> (None, p)
      | Some n \<Rightarrow>
          let idx = get_cindex k n
          in if idx \<ge> push_bit (bits n) 1 then (None, p)
             else if IS_TNODE n then fib_find_yesde_loop k n (p @ [index]) (unat idx)
             else (Some (p @ [index]), p))"
  by pat_completeness auto
termination
  by (relation "measure (\<lambda>(k, pn, p, index). size pn)") (auto simp: size_get_child)

declare fib_find_yesde_loop.simps [simp del]

definition fib_find_yesde :: "key_vector \<Rightarrow> t_key \<Rightarrow> nat list option \<times> nat list" where
  "fib_find_yesde t k = fib_find_yesde_loop k t [] 0"

subsection \<open>inflate, halve, collapse, resize\<close>

text \<open>
  The state of the writer: the trie (its root \<^verbatim>\<open>t->kv\<close>) and the allocation oracle.
  Nodes under construction are values; \<^verbatim>\<open>put_child_root\<close> links them into the trie.
  The parent pointers that \<^verbatim>\<open>NODE_INIT_PARENT\<close>, \<^verbatim>\<open>node_set_parent\<close> and
  \<^verbatim>\<open>update_children\<close> write are implied by the position in the trie, and the free
  lists of \<^verbatim>\<open>tnode_free\<close> hold nodes no pointer of the trie reaches any more.
\<close>

type_synonym state = "key_vector \<times> bool list"

definition MAX_WORK :: nat where
  "MAX_WORK = 10"

text \<open>
  The inner loop of \<^verbatim>\<open>inflate\<close> (lines 611-616), two steps per round as in the
  source; \<open>None\<close> when a decrement would wrap.
\<close>

function inflate_split ::
  "key_vector \<Rightarrow> nat \<Rightarrow> nat \<Rightarrow> key_vector \<Rightarrow> key_vector \<Rightarrow> (key_vector \<times> key_vector) option" where
  "inflate_split iyesde j k yesde0 yesde1 =
     (if j = 0 then Some (yesde0, yesde1)
      else if j < 2 \<or> k < 2 then None
      else do {
        n1a \<leftarrow> put_child yesde1 (j - 1) (get_child iyesde (k - 1));
        n0a \<leftarrow> put_child yesde0 (j - 1) (get_child iyesde (j - 1));
        n1b \<leftarrow> put_child n1a (j - 2) (get_child iyesde (k - 2));
        n0b \<leftarrow> put_child n0a (j - 2) (get_child iyesde (j - 2));
        inflate_split iyesde (j - 2) (k - 2) n0b n1b
      })"
  by pat_completeness auto
termination
  by (relation "measure (\<lambda>(iyesde, j, k, yesde0, yesde1). j)") auto

declare inflate_split.simps [simp del]

text \<open>
  The loop of \<^verbatim>\<open>inflate\<close> over the children of \<open>oldtyesde\<close>, building \<open>tn\<close>. The
  result \<open>Some (None, _)\<close> is the jump to \<^verbatim>\<open>nomem\<close>.
\<close>

function inflate_loop ::
  "key_vector \<Rightarrow> nat \<Rightarrow> key_vector \<Rightarrow> bool list \<Rightarrow> (key_vector option \<times> bool list) option" where
  "inflate_loop oldtyesde i tn al =
     (if i = 0 then Some (Some tn, al)
      else
        (case get_child oldtyesde (i - 1) of
           None \<Rightarrow> inflate_loop oldtyesde (i - 1) tn al
         | Some iyesde \<Rightarrow>
             if \<not> tyesde_full oldtyesde (Some iyesde) then
               (case put_child tn (unat (get_index (key iyesde) tn)) (Some iyesde) of
                  None \<Rightarrow> None
                | Some tn' \<Rightarrow> inflate_loop oldtyesde (i - 1) tn' al)
             else if bits iyesde = 1 then
               (case put_child tn (2 * (i - 1) + 1) (get_child iyesde 1) of
                  None \<Rightarrow> None
                | Some tn1 \<Rightarrow>
                    (case put_child tn1 (2 * (i - 1)) (get_child iyesde 0) of
                       None \<Rightarrow> None
                     | Some tn2 \<Rightarrow> inflate_loop oldtyesde (i - 1) tn2 al))
             else
               (case tyesde_new (key iyesde OR push_bit (pos tn) 1) (int (pos iyesde))
                       (int (bits iyesde) - 1) al of
                  None \<Rightarrow> None
                | Some (None, al1) \<Rightarrow> Some (None, al1)
                | Some (Some yesde1, al1) \<Rightarrow>
                    (case tyesde_new (key iyesde) (int (pos iyesde)) (int (bits iyesde) - 1) al1 of
                       None \<Rightarrow> None
                     | Some (None, al2) \<Rightarrow> Some (None, al2)
                     | Some (Some yesde0, al2) \<Rightarrow>
                         (case inflate_split iyesde (unat (child_length iyesde) div 2)
                                 (unat (child_length iyesde)) yesde0 yesde1 of
                            None \<Rightarrow> None
                          | Some (n0, n1) \<Rightarrow>
                              (case put_child tn (2 * (i - 1) + 1) (Some n1) of
                                 None \<Rightarrow> None
                               | Some tn1 \<Rightarrow>
                                   (case put_child tn1 (2 * (i - 1)) (Some n0) of
                                      None \<Rightarrow> None
                                    | Some tn2 \<Rightarrow> inflate_loop oldtyesde (i - 1) tn2 al2)))))))"
  by pat_completeness auto
termination
  by (relation "measure (\<lambda>(oldtyesde, i, tn, al). i)") auto

declare inflate_loop.simps [simp del]

text \<open>The loop of \<^verbatim>\<open>halve\<close>, two children per round.\<close>

function halve_loop ::
  "key_vector \<Rightarrow> nat \<Rightarrow> key_vector \<Rightarrow> bool list \<Rightarrow> (key_vector option \<times> bool list) option" where
  "halve_loop oldtyesde i tn al =
     (if i = 0 then Some (Some tn, al)
      else if i < 2 then None
      else
        let yesde1 = get_child oldtyesde (i - 1);
            yesde0 = get_child oldtyesde (i - 2)
        in if yesde1 = None \<or> yesde0 = None then
             (case put_child tn ((i - 2) div 2) (if yesde1 \<noteq> None then yesde1 else yesde0) of
                None \<Rightarrow> None
              | Some tn' \<Rightarrow> halve_loop oldtyesde (i - 2) tn' al)
           else
             (case tyesde_new (key (the yesde0)) (int (pos oldtyesde)) 1 al of
                None \<Rightarrow> None
              | Some (None, al1) \<Rightarrow> Some (None, al1)
              | Some (Some iyesde, al1) \<Rightarrow>
                  (case put_child iyesde 1 yesde1 of
                     None \<Rightarrow> None
                   | Some in1 \<Rightarrow>
                       (case put_child in1 0 yesde0 of
                          None \<Rightarrow> None
                        | Some in2 \<Rightarrow>
                            (case put_child tn ((i - 2) div 2) (Some in2) of
                               None \<Rightarrow> None
                             | Some tn' \<Rightarrow> halve_loop oldtyesde (i - 2) tn' al1)))))"
  by pat_completeness auto
termination
  by (relation "measure (\<lambda>(oldtyesde, i, tn, al). i)") auto

declare halve_loop.simps [simp del]

text \<open>The scan of \<^verbatim>\<open>collapse\<close> for the one child that might still exist.\<close>

fun collapse_scan :: "key_vector \<Rightarrow> nat \<Rightarrow> key_vector option" where
  "collapse_scan oldtyesde 0 = None"
| "collapse_scan oldtyesde (Suc i) =
     (case get_child oldtyesde i of
        Some n \<Rightarrow> Some n
      | None \<Rightarrow> collapse_scan oldtyesde i)"

definition collapse :: "state \<Rightarrow> nat list \<Rightarrow> (nat list \<times> state) option" where
  "collapse s oldtyesde =
     (case get_kv (fst s) oldtyesde of
        None \<Rightarrow> None
      | Some old \<Rightarrow>
          if oldtyesde = [] then None
          else
            let n = collapse_scan old (unat (child_length old));
                tp = butlast oldtyesde
            in (case at_path tp (\<lambda>tpn. put_child_root tpn (key old) n) (fst s) of
                  None \<Rightarrow> None
                | Some t' \<Rightarrow> Some (tp, (t', snd s))))"

text \<open>
  \<^verbatim>\<open>resize\<close>, \<^verbatim>\<open>inflate\<close>, \<^verbatim>\<open>halve\<close> and \<^verbatim>\<open>replace\<close> call each other. The
  recursion is cut at \<^verbatim>\<open>resize\<close>: the functions below take as \<open>rs\<close> the
  \<^verbatim>\<open>resize\<close> that \<^verbatim>\<open>replace\<close> calls on the full children, and \<open>resize\<close> itself
  is defined by recursion on fuel, which bounds the nesting of \<^verbatim>\<open>resize\<close> inside
  \<^verbatim>\<open>replace\<close>. The result is \<open>None\<close> when the fuel runs out, as for a \<^verbatim>\<open>BUG_ON\<close> or a
  pointer that leaves the trie.
\<close>

type_synonym resize_fn = "state \<Rightarrow> nat list \<Rightarrow> (nat list \<times> state) option"

text \<open>The loop of \<^verbatim>\<open>replace\<close> that resizes the full children of \<open>tn\<close>.\<close>

fun replace_loop :: "resize_fn \<Rightarrow> state \<Rightarrow> nat list \<Rightarrow> nat \<Rightarrow> state option" where
  "replace_loop rs s tn 0 = Some s"
| "replace_loop rs s tn (Suc i) =
     (case get_kv (fst s) tn of
        None \<Rightarrow> None
      | Some n \<Rightarrow>
          if tyesde_full n (get_child n i) then
            (case rs s (tn @ [i]) of
               None \<Rightarrow> None
             | Some (tn', s') \<Rightarrow> replace_loop rs s' tn' i)
          else replace_loop rs s tn i)"

definition replace :: "resize_fn \<Rightarrow> state \<Rightarrow> nat list \<Rightarrow> key_vector \<Rightarrow> (nat list \<times> state) option" where
  "replace rs s oldtyesde tn =
     (if oldtyesde = [] then None
      else
        let tp = butlast oldtyesde
        in (case get_kv (fst s) tp of
              None \<Rightarrow> None
            | Some tpn \<Rightarrow>
                (case at_path tp (\<lambda>m. put_child_root m (key tn) (Some tn)) (fst s) of
                   None \<Rightarrow> None
                 | Some t1 \<Rightarrow>
                     (case replace_loop rs (t1, snd s) (tp @ [root_slot tpn (key tn)])
                             (unat (child_length tn)) of
                        None \<Rightarrow> None
                      | Some s' \<Rightarrow> Some (tp, s')))))"

text \<open>\<^verbatim>\<open>inflate\<close> and \<^verbatim>\<open>halve\<close> return NULL as \<open>Some (None, _)\<close>.\<close>

definition inflate :: "resize_fn \<Rightarrow> state \<Rightarrow> nat list \<Rightarrow> (nat list option \<times> state) option" where
  "inflate rs s oldtyesde =
     (case get_kv (fst s) oldtyesde of
        None \<Rightarrow> None
      | Some old \<Rightarrow>
          (case tyesde_new (key old) (int (pos old) - 1) (int (bits old) + 1) (snd s) of
             None \<Rightarrow> None
           | Some (None, al) \<Rightarrow> Some (None, (fst s, al))
           | Some (Some tn, al) \<Rightarrow>
               (case inflate_loop old (unat (child_length old)) tn al of
                  None \<Rightarrow> None
                | Some (None, al') \<Rightarrow> Some (None, (fst s, al'))
                | Some (Some tn', al') \<Rightarrow>
                    (case replace rs (fst s, al') oldtyesde tn' of
                       None \<Rightarrow> None
                     | Some (tp, s') \<Rightarrow> Some (Some tp, s')))))"

definition halve :: "resize_fn \<Rightarrow> state \<Rightarrow> nat list \<Rightarrow> (nat list option \<times> state) option" where
  "halve rs s oldtyesde =
     (case get_kv (fst s) oldtyesde of
        None \<Rightarrow> None
      | Some old \<Rightarrow>
          (case tyesde_new (key old) (int (pos old) + 1) (int (bits old) - 1) (snd s) of
             None \<Rightarrow> None
           | Some (None, al) \<Rightarrow> Some (None, (fst s, al))
           | Some (Some tn, al) \<Rightarrow>
               (case halve_loop old (unat (child_length old)) tn al of
                  None \<Rightarrow> None
                | Some (None, al') \<Rightarrow> Some (None, (fst s, al'))
                | Some (Some tn', al') \<Rightarrow>
                    (case replace rs (fst s, al') oldtyesde tn' of
                       None \<Rightarrow> None
                     | Some (tp, s') \<Rightarrow> Some (Some tp, s')))))"

text \<open>
  The two \<^verbatim>\<open>while\<close> loops of \<^verbatim>\<open>resize\<close>, by recursion on \<^verbatim>\<open>max_work\<close>; \<open>tn\<close> is the
  child \<open>cindex\<close> of \<open>tp\<close>. They return the state and what is left of \<^verbatim>\<open>max_work\<close>.
\<close>

fun resize_inflate :: "resize_fn \<Rightarrow> state \<Rightarrow> nat list \<Rightarrow> nat \<Rightarrow> nat \<Rightarrow> (state \<times> nat) option" where
  "resize_inflate rs s tp cindex 0 = Some (s, 0)"
| "resize_inflate rs s tp cindex (Suc w) =
     (case get_kv (fst s) tp of
        None \<Rightarrow> None
      | Some tpn \<Rightarrow>
          (case get_kv (fst s) (tp @ [cindex]) of
             None \<Rightarrow> None
           | Some n \<Rightarrow>
               if should_inflate tpn n then
                 (case inflate rs s (tp @ [cindex]) of
                    None \<Rightarrow> None
                  | Some (None, s') \<Rightarrow> Some (s', Suc w)
                  | Some (Some tp', s') \<Rightarrow> resize_inflate rs s' tp' cindex w)
               else Some (s, Suc w)))"

fun resize_halve :: "resize_fn \<Rightarrow> state \<Rightarrow> nat list \<Rightarrow> nat \<Rightarrow> nat \<Rightarrow> (state \<times> nat) option" where
  "resize_halve rs s tp cindex 0 = Some (s, 0)"
| "resize_halve rs s tp cindex (Suc w) =
     (case get_kv (fst s) tp of
        None \<Rightarrow> None
      | Some tpn \<Rightarrow>
          (case get_kv (fst s) (tp @ [cindex]) of
             None \<Rightarrow> None
           | Some n \<Rightarrow>
               if should_halve tpn n then
                 (case halve rs s (tp @ [cindex]) of
                    None \<Rightarrow> None
                  | Some (None, s') \<Rightarrow> Some (s', Suc w)
                  | Some (Some tp', s') \<Rightarrow> resize_halve rs s' tp' cindex w)
               else Some (s, Suc w)))"

text \<open>The body of \<^verbatim>\<open>resize\<close>.\<close>

definition resize_body :: "resize_fn \<Rightarrow> state \<Rightarrow> nat list \<Rightarrow> (nat list \<times> state) option" where
  "resize_body rs s tn =
     (if tn = [] then None
      else
        (case get_kv (fst s) tn of
           None \<Rightarrow> None
         | Some n \<Rightarrow>
             (case get_kv (fst s) (butlast tn) of
                None \<Rightarrow> None
              | Some tpn \<Rightarrow>
                  let tp = butlast tn;
                      cindex = unat (get_index (key n) tpn)
                  in if cindex \<noteq> last tn then None
                     else
                       (case resize_inflate rs s tp cindex MAX_WORK of
                          None \<Rightarrow> None
                        | Some (s1, max_work) \<Rightarrow>
                            if max_work \<noteq> MAX_WORK then Some (tp, s1)
                            else
                              (case resize_halve rs s1 tp cindex max_work of
                                 None \<Rightarrow> None
                               | Some (s2, w) \<Rightarrow>
                                   (case get_kv (fst s2) (tp @ [cindex]) of
                                      None \<Rightarrow> None
                                    | Some n2 \<Rightarrow>
                                        if should_collapse n2 then collapse s2 (tp @ [cindex])
                                        else Some (tp, s2)))))))"

primrec resize :: "nat \<Rightarrow> state \<Rightarrow> nat list \<Rightarrow> (nat list \<times> state) option" where
  "resize 0 = (\<lambda>s tn. None)"
| "resize (Suc f) = resize_body (resize f)"

text \<open>\<^verbatim>\<open>trie_rebalance\<close>: a unit of fuel for every turn of its loop.\<close>

fun trie_rebalance :: "nat \<Rightarrow> state \<Rightarrow> nat list \<Rightarrow> state option" where
  "trie_rebalance 0 s tn = None"
| "trie_rebalance (Suc f) s tn =
     (case get_kv (fst s) tn of
        None \<Rightarrow> None
      | Some n \<Rightarrow>
          if IS_TRIE n then Some s
          else (case resize (Suc f) s tn of
                  None \<Rightarrow> None
                | Some (tp, s') \<Rightarrow> trie_rebalance f s' tp))"

subsection \<open>Requests and the collaborators of the trie\<close>

text \<open>
  \<^verbatim>\<open>struct fib_config\<close>, with \<open>fc_dst\<close> already in host order (the \<^verbatim>\<open>key\<close> that
  \<^verbatim>\<open>ntohl(cfg->fc_dst)\<close> yields) and the four bits of \<^verbatim>\<open>fc_nlflags\<close> that the trie
  tests. The functions of other files that the trie calls and whose result it uses are
  the fields of \<open>ext\<close>. \<^verbatim>\<open>rtmsg_fib\<close>, \<^verbatim>\<open>rt_cache_flush\<close>, \<^verbatim>\<open>fib_release_info\<close> and
  the counter \<^verbatim>\<open>tb_num_default\<close> do not touch the trie and are left out.
\<close>

record fib_config =
  fc_dst :: t_key
  fc_dst_len :: nat
  fc_tos :: nat
  fc_type :: nat
  fc_scope :: nat
  fc_prefsrc :: nat
  fc_protocol :: nat
  NLM_F_REPLACE :: bool
  NLM_F_EXCL :: bool
  NLM_F_CREATE :: bool
  NLM_F_APPEND :: bool

datatype fib_event_type =
  FIB_EVENT_ENTRY_REPLACE | FIB_EVENT_ENTRY_APPEND | FIB_EVENT_ENTRY_ADD | FIB_EVENT_ENTRY_DEL

record ext =
  fib_create_info :: "fib_config \<Rightarrow> int + fib_info"
  call_fib_entry_yestifiers :: "fib_event_type \<Rightarrow> t_key \<Rightarrow> nat \<Rightarrow> fib_alias \<Rightarrow> int"
  fib_nh_match :: "fib_config \<Rightarrow> fib_info \<Rightarrow> int"
  fib_metrics_match :: "fib_config \<Rightarrow> fib_info \<Rightarrow> bool"
  fib_props_error :: "nat \<Rightarrow> int"

definition EINVAL :: int where "EINVAL = 22"
definition EEXIST :: int where "EEXIST = 17"
definition ENOENT :: int where "ENOENT = 2"
definition ENOBUFS :: int where "ENOBUFS = 105"
definition ENOMEM :: int where "ENOMEM = 12"
definition ESRCH :: int where "ESRCH = 3"
definition EAGAIN :: int where "EAGAIN = 11"
definition RT_SCOPE_NOWHERE :: nat where "RT_SCOPE_NOWHERE = 255"

subsection \<open>Insertion\<close>

text \<open>\<^verbatim>\<open>__fls\<close>: the index of the most significant set bit, undefined for 0.\<close>

fun fls_below :: "nat \<Rightarrow> t_key \<Rightarrow> nat" where
  "fls_below 0 x = 0"
| "fls_below (Suc n) x = (if bit x n then n else fls_below n x)"

definition fls :: "t_key \<Rightarrow> nat option" where
  "fls x = (if x = 0 then None else Some (fls_below 32 x))"

text \<open>
  Case 3 of \<^verbatim>\<open>fib_insert_node\<close> (lines 1054-1059): the slot of \<open>tp\<close> for the key is
  NULL and takes the new leaf.
\<close>

definition fib_insert_yesde_case3 ::
  "nat \<Rightarrow> state \<Rightarrow> nat list \<Rightarrow> key_vector \<Rightarrow> fib_alias \<Rightarrow> t_key \<Rightarrow> (int \<times> state) option" where
  "fib_insert_yesde_case3 fuel s tp l new k =
     (case node_push_suffix (fst s) tp (fa_slen new) of
        None \<Rightarrow> None
      | Some t1 \<Rightarrow>
          (case at_path tp (\<lambda>m. put_child_root m k (Some l)) t1 of
             None \<Rightarrow> None
           | Some t2 \<Rightarrow>
               (case trie_rebalance fuel (t2, snd s) tp of
                  None \<Rightarrow> None
                | Some s' \<Rightarrow> Some (0, s'))))"

definition fib_insert_yesde ::
  "nat \<Rightarrow> state \<Rightarrow> nat list \<Rightarrow> fib_alias \<Rightarrow> t_key \<Rightarrow> (int \<times> state) option" where
  "fib_insert_yesde fuel s tp new k =
     (case leaf_new k new (snd s) of
        (None, al1) \<Rightarrow> Some (- ENOMEM, (fst s, al1))
      | (Some l, al1) \<Rightarrow>
          (case get_kv (fst s) tp of
             None \<Rightarrow> None
           | Some tpn \<Rightarrow>
               (case get_child tpn (unat (get_index k tpn)) of
                  None \<Rightarrow> fib_insert_yesde_case3 fuel (fst s, al1) tp l new k
                | Some n \<Rightarrow>
                    (case fls (k XOR key n) of
                       None \<Rightarrow> None
                     | Some b \<Rightarrow>
                         (case tyesde_new k (int b) 1 al1 of
                            None \<Rightarrow> None
                          | Some (None, al2) \<Rightarrow> Some (- ENOMEM, (fst s, al2))
                          | Some (Some tn, al2) \<Rightarrow>
                              (case put_child tn (unat (get_index k tn XOR 1)) (Some n) of
                                 None \<Rightarrow> None
                               | Some tn1 \<Rightarrow>
                                   (case at_path tp (\<lambda>m. put_child_root m k (Some tn1)) (fst s) of
                                      None \<Rightarrow> None
                                    | Some t1 \<Rightarrow>
                                        fib_insert_yesde_case3 fuel (t1, al2)
                                          (tp @ [root_slot tpn k]) l new k)))))))"

text \<open>
  \<^verbatim>\<open>fib_insert_alias\<close>: \<open>l\<close> is the pointer to the leaf or NULL, \<open>fa\<close> the position in
  its list or NULL.
\<close>

definition fib_insert_alias ::
  "nat \<Rightarrow> state \<Rightarrow> nat list \<Rightarrow> nat list option \<Rightarrow> fib_alias \<Rightarrow> nat option \<Rightarrow> t_key
   \<Rightarrow> (int \<times> state) option" where
  "fib_insert_alias fuel s tp l new fa k =
     (case l of
        None \<Rightarrow> fib_insert_yesde fuel s tp new k
      | Some lp \<Rightarrow>
          (case get_kv (fst s) lp of
             None \<Rightarrow> None
           | Some ln \<Rightarrow>
               let ln1 = set_leaf (fib_insert_alias_list (leaf ln) new fa) ln
               in if slen ln1 < fa_slen new then
                    (case at_path lp (\<lambda>_. Some (set_slen (fa_slen new) ln1)) (fst s) of
                       None \<Rightarrow> None
                     | Some t1 \<Rightarrow>
                         (case node_push_suffix t1 tp (fa_slen new) of
                            None \<Rightarrow> None
                          | Some t2 \<Rightarrow> Some (0, (t2, snd s))))
                  else
                    (case at_path lp (\<lambda>_. Some ln1) (fst s) of
                       None \<Rightarrow> None
                     | Some t1 \<Rightarrow> Some (0, (t1, snd s)))))"

text \<open>
  The search for an exact match in \<^verbatim>\<open>fib_table_insert\<close> (lines 1178-1192), from
  position \<open>i\<close> on: where \<open>fa\<close> stands after the loop, and \<open>fa_match\<close>.
\<close>

fun insert_match_loop ::
  "fib_alias list \<Rightarrow> nat \<Rightarrow> nat \<Rightarrow> nat \<Rightarrow> nat \<Rightarrow> fib_info \<Rightarrow> nat \<Rightarrow> nat option \<times> nat option" where
  "insert_match_loop [] i slen' tb tos fi ty = (None, None)"
| "insert_match_loop (fa # rest) i slen' tb tos fi ty =
     (if fa_slen fa \<noteq> slen' \<or> tb_id fa \<noteq> tb \<or> fa_tos fa \<noteq> tos then (Some i, None)
      else if fib_priority (fa_info fa) \<noteq> fib_priority fi then (Some i, None)
      else if fa_type fa = ty \<and> fa_info fa = fi then (Some i, Some i)
      else insert_match_loop rest (Suc i) slen' tb tos fi ty)"

text \<open>
  The tail of \<^verbatim>\<open>fib_table_insert\<close> from the \<^verbatim>\<open>NLM_F_CREATE\<close> test on (lines
  1254-1303): a new alias is made and handed to \<^verbatim>\<open>fib_insert_alias\<close>.
\<close>

definition fib_table_insert_create ::
  "nat \<Rightarrow> ext \<Rightarrow> nat \<Rightarrow> fib_config \<Rightarrow> state \<Rightarrow> fib_info \<Rightarrow> nat list \<Rightarrow> nat list option
   \<Rightarrow> nat option \<Rightarrow> fib_event_type \<Rightarrow> (int \<times> state) option" where
  "fib_table_insert_create fuel x tb cfg s fi tp l fa event =
     (if \<not> NLM_F_CREATE cfg then Some (- ENOENT, s)
      else
        (case alloc (snd s) of
           (False, al1) \<Rightarrow> Some (- ENOBUFS, (fst s, al1))
         | (True, al1) \<Rightarrow>
             let plen = fc_dst_len cfg;
                 new_fa = \<lparr>fa_info = fi, fa_tos = fc_tos cfg, fa_type = fc_type cfg,
                           fa_accessed = False,
                           fa_slen = nat ((int KEYLENGTH - int plen) mod 256), tb_id = tb\<rparr>;
                 err = call_fib_entry_yestifiers x event (fc_dst cfg) plen new_fa
             in if err \<noteq> 0 then Some (err, (fst s, al1))
                else
                  (case fib_insert_alias fuel (fst s, al1) tp l new_fa fa (fc_dst cfg) of
                     None \<Rightarrow> None
                   | Some (err', s') \<Rightarrow> Some (err', s'))))"

text \<open>
  The \<^verbatim>\<open>NLM_F_REPLACE\<close> block of \<^verbatim>\<open>fib_table_insert\<close> (lines 1194-1239): \<open>i\<close> is
  \<^verbatim>\<open>fa_first\<close>, the position of the first alias with the tos and priority of the
  request in the list \<open>fah\<close> of the leaf \<open>l\<close>.
\<close>

definition fib_table_insert_replace ::
  "ext \<Rightarrow> nat \<Rightarrow> fib_config \<Rightarrow> state \<Rightarrow> fib_info \<Rightarrow> nat list \<Rightarrow> fib_alias list \<Rightarrow> nat
   \<Rightarrow> nat option \<Rightarrow> (int \<times> state) option" where
  "fib_table_insert_replace x tb cfg s fi l fah i fa_match =
     (case fa_match of
        Some m \<Rightarrow> Some (if i = m then 0 else - EEXIST, s)
      | None \<Rightarrow>
          (case alloc (snd s) of
             (False, al1) \<Rightarrow> Some (- ENOBUFS, (fst s, al1))
           | (True, al1) \<Rightarrow>
               let new_fa = \<lparr>fa_info = fi, fa_tos = fa_tos (fah ! i), fa_type = fc_type cfg,
                               fa_accessed = False, fa_slen = fa_slen (fah ! i), tb_id = tb\<rparr>;
                   err = call_fib_entry_yestifiers x FIB_EVENT_ENTRY_REPLACE (fc_dst cfg)
                           (fc_dst_len cfg) new_fa
               in if err \<noteq> 0 then Some (err, (fst s, al1))
                  else
                    (case at_path l (\<lambda>ln. Some (set_leaf ((leaf ln)[i := new_fa]) ln)) (fst s) of
                       None \<Rightarrow> None
                     | Some t1 \<Rightarrow> Some (0, (t1, al1)))))"

text \<open>
  The block of \<^verbatim>\<open>fib_table_insert\<close> for an alias with the tos and priority of the
  request at position \<open>i\<close> (lines 1163-1253).
\<close>

definition fib_table_insert_found ::
  "nat \<Rightarrow> ext \<Rightarrow> nat \<Rightarrow> fib_config \<Rightarrow> state \<Rightarrow> fib_info \<Rightarrow> nat list \<Rightarrow> nat list
   \<Rightarrow> fib_alias list \<Rightarrow> nat \<Rightarrow> (int \<times> state) option" where
  "fib_table_insert_found fuel x tb cfg s fi tp l fah i =
     (if NLM_F_EXCL cfg then Some (- EEXIST, s)
      else
        let slen' = nat ((int KEYLENGTH - int (fc_dst_len cfg)) mod 256);
            (fa_after, fa_match) =
               insert_match_loop (drop i fah) i slen' tb (fc_tos cfg) fi (fc_type cfg)
        in if NLM_F_REPLACE cfg then fib_table_insert_replace x tb cfg s fi l fah i fa_match
           else if fa_match \<noteq> None then Some (- EEXIST, s)
           else if NLM_F_APPEND cfg then
             fib_table_insert_create fuel x tb cfg s fi tp (Some l) fa_after
               FIB_EVENT_ENTRY_APPEND
           else
             fib_table_insert_create fuel x tb cfg s fi tp (Some l) (Some i)
               FIB_EVENT_ENTRY_ADD)"

text \<open>
  \<^verbatim>\<open>fib_table_insert(net, tb, cfg, extack)\<close>: \<open>tb\<close> is \<^verbatim>\<open>tb->tb_id\<close> and the state
  holds the trie \<^verbatim>\<open>tb->tb_data\<close>. The result is the returned \<^verbatim>\<open>int\<close> and the state.
\<close>

definition fib_table_insert ::
  "nat \<Rightarrow> ext \<Rightarrow> nat \<Rightarrow> fib_config \<Rightarrow> state \<Rightarrow> (int \<times> state) option" where
  "fib_table_insert fuel x tb cfg s =
     (let plen = fc_dst_len cfg;
          slen' = nat ((int KEYLENGTH - int plen) mod 256);
          tos = fc_tos cfg;
          k = fc_dst cfg
      in if \<not> fib_valid_key_len k plen then Some (- EINVAL, s)
         else
           (case fib_create_info x cfg of
              Inl err \<Rightarrow> Some (err, s)
            | Inr fi \<Rightarrow>
                (case fib_find_yesde (fst s) k of
                   (None, tp) \<Rightarrow>
                     fib_table_insert_create fuel x tb cfg s fi tp None None FIB_EVENT_ENTRY_ADD
                 | (Some l, tp) \<Rightarrow>
                     (case get_kv (fst s) l of
                        None \<Rightarrow> None
                      | Some ln \<Rightarrow>
                          (case fib_find_alias (leaf ln) slen' tos (fib_priority fi) tb of
                             None \<Rightarrow>
                               fib_table_insert_create fuel x tb cfg s fi tp (Some l) None
                                 FIB_EVENT_ENTRY_ADD
                           | Some i \<Rightarrow>
                               if fa_tos (leaf ln ! i) = tos \<and>
                                  fib_priority (fa_info (leaf ln ! i)) = fib_priority fi
                               then fib_table_insert_found fuel x tb cfg s fi tp l (leaf ln) i
                               else fib_table_insert_create fuel x tb cfg s fi tp (Some l)
                                      (Some i) FIB_EVENT_ENTRY_ADD)))))"

subsection \<open>Deletion\<close>

text \<open>
  \<^verbatim>\<open>fib_remove_alias\<close>: \<open>old\<close> is the position of the alias in the list of the leaf
  \<open>l\<close>. After the unlink, \<^verbatim>\<open>*pprev\<close> is NULL exactly when \<open>old\<close> was the last entry,
  and then \<^verbatim>\<open>fa\<close> is the entry before it.
\<close>

definition fib_remove_alias ::
  "nat \<Rightarrow> state \<Rightarrow> nat list \<Rightarrow> nat list \<Rightarrow> nat \<Rightarrow> state option" where
  "fib_remove_alias fuel s tp l old =
     (case (get_kv (fst s) l, get_kv (fst s) tp) of
        (Some ln, Some tpn) \<Rightarrow>
          if old \<ge> length (leaf ln) then None
          else
            let fah = take old (leaf ln) @ drop (Suc old) (leaf ln)
            in (case at_path l (\<lambda>m. Some (set_leaf fah m)) (fst s) of
                  None \<Rightarrow> None
                | Some t0 \<Rightarrow>
                    if fah = [] then
                      (case (if slen tpn = slen ln then node_pull_suffix t0 tp (pos tpn)
                             else Some t0) of
                         None \<Rightarrow> None
                       | Some t1 \<Rightarrow>
                           (case at_path tp (\<lambda>m. put_child_root m (key ln) None) t1 of
                              None \<Rightarrow> None
                            | Some t2 \<Rightarrow> trie_rebalance fuel (t2, snd s) tp))
                    else if old < length fah then Some (t0, snd s)
                    else
                      (case at_path l (\<lambda>m. Some (set_slen (fa_slen (fah ! (old - 1))) m)) t0 of
                         None \<Rightarrow> None
                       | Some t1 \<Rightarrow>
                           (case node_pull_suffix t1 tp (fa_slen (fah ! (old - 1))) of
                              None \<Rightarrow> None
                            | Some t2 \<Rightarrow> Some (t2, snd s))))
      | _ \<Rightarrow> None)"

text \<open>The search of \<^verbatim>\<open>fib_table_delete\<close> for the alias to delete (lines 1575-1596).\<close>

fun delete_match_loop ::
  "ext \<Rightarrow> fib_config \<Rightarrow> fib_alias list \<Rightarrow> nat \<Rightarrow> nat \<Rightarrow> nat \<Rightarrow> nat \<Rightarrow> nat option" where
  "delete_match_loop x cfg [] i slen' tb tos = None"
| "delete_match_loop x cfg (fa # rest) i slen' tb tos =
     (if fa_slen fa \<noteq> slen' \<or> tb_id fa \<noteq> tb \<or> fa_tos fa \<noteq> tos then None
      else if (fc_type cfg = 0 \<or> fa_type fa = fc_type cfg) \<and>
              (fc_scope cfg = RT_SCOPE_NOWHERE \<or> fib_scope (fa_info fa) = fc_scope cfg) \<and>
              (fc_prefsrc cfg = 0 \<or> fib_prefsrc (fa_info fa) = fc_prefsrc cfg) \<and>
              (fc_protocol cfg = 0 \<or> fib_protocol (fa_info fa) = fc_protocol cfg) \<and>
              fib_nh_match x cfg (fa_info fa) = 0 \<and>
              fib_metrics_match x cfg (fa_info fa)
           then Some i
      else delete_match_loop x cfg rest (Suc i) slen' tb tos)"

definition fib_table_delete ::
  "nat \<Rightarrow> ext \<Rightarrow> nat \<Rightarrow> fib_config \<Rightarrow> state \<Rightarrow> (int \<times> state) option" where
  "fib_table_delete fuel x tb cfg s =
     (let plen = fc_dst_len cfg;
          slen' = nat ((int KEYLENGTH - int plen) mod 256);
          tos = fc_tos cfg;
          k = fc_dst cfg
      in if \<not> fib_valid_key_len k plen then Some (- EINVAL, s)
         else
           (case fib_find_yesde (fst s) k of
              (None, tp) \<Rightarrow> Some (- ESRCH, s)
            | (Some l, tp) \<Rightarrow>
                (case get_kv (fst s) l of
                   None \<Rightarrow> None
                 | Some ln \<Rightarrow>
                     (case fib_find_alias (leaf ln) slen' tos 0 tb of
                        None \<Rightarrow> Some (- ESRCH, s)
                      | Some i \<Rightarrow>
                          (case delete_match_loop x cfg (drop i (leaf ln)) i slen' tb tos of
                             None \<Rightarrow> Some (- ESRCH, s)
                           | Some d \<Rightarrow>
                               (case fib_remove_alias fuel s tp l d of
                                  None \<Rightarrow> None
                                | Some s' \<Rightarrow> Some (0, s')))))))"

text \<open>The empty trie of \<^verbatim>\<open>fib_trie_table\<close>: the root with its one NULL slot.\<close>

definition trie_init :: key_vector where
  "trie_init = KV 0 KEYLENGTH 0 KEYLENGTH [] [None] 0 0"

subsection \<open>Walking the leaves: leaf\_walk\_rcu and fib\_table\_dump\<close>

text \<open>
  \<^verbatim>\<open>leaf_walk_rcu(&tn, key)\<close>. The first loop (\<open>leaf_walk_find\<close>) descends from \<^verbatim>\<open>*tn\<close>
  towards the key; \<open>pn\<close> is the node at pointer \<open>p\<close>. It ends at the label \<^verbatim>\<open>found\<close>
  (\<open>Found l p\<close>: the leaf and the pointer stored in \<^verbatim>\<open>*tn\<close>) or hands \<open>pn\<close> and
  \<open>cindex\<close> to the second loop (\<open>Scan p cindex\<close>). The second loop (\<open>leaf_walk_next\<close>)
  climbs and descends until it meets a leaf or the root. Nothing in the code bounds it, so
  it is a partial function: \<open>None\<close> is a walk that does not return or that leaves the
  trie. The result of \<open>leaf_walk_rcu\<close> is the returned leaf (\<open>None\<close> for NULL) and the
  pointer stored in \<^verbatim>\<open>*tn\<close>.
\<close>

datatype walk = Found "nat list" "nat list" | Scan "nat list" ulong

function leaf_walk_find :: "t_key \<Rightarrow> key_vector \<Rightarrow> nat list \<Rightarrow> walk" where
  "leaf_walk_find k pn p =
     (let cindex = (if k > key pn then get_index k pn else 0)
      in if drop_bit (bits pn) cindex \<noteq> 0 then Scan p cindex
         else (case get_child pn (unat cindex) of
                 None \<Rightarrow> Scan p (cindex + 1)
               | Some n \<Rightarrow>
                   if IS_LEAF n \<and> key n \<ge> k then Found (p @ [unat cindex]) p
                   else if IS_TNODE n then leaf_walk_find k n (p @ [unat cindex])
                   else Scan p (cindex + 1)))"
  by pat_completeness auto
termination
  by (relation "measure (\<lambda>(k, pn, p). size pn)") (auto simp: size_get_child)

declare leaf_walk_find.simps [simp del]

partial_function (option) leaf_walk_next ::
  "key_vector \<Rightarrow> nat list \<Rightarrow> ulong \<Rightarrow> (nat list option \<times> nat list) option" where
  "leaf_walk_next t p cindex =
     (case get_kv t p of
        None \<Rightarrow> None
      | Some pn \<Rightarrow>
          if IS_TRIE pn then Some (None, p)
          else if cindex \<ge> push_bit (bits pn) 1 then
            (if p = [] then None
             else case get_kv t (butlast p) of
                    None \<Rightarrow> None
                  | Some tp \<Rightarrow> leaf_walk_next t (butlast p) (get_index (key pn) tp + 1))
          else (case get_child pn (unat cindex) of
                  None \<Rightarrow> leaf_walk_next t p (cindex + 1)
                | Some n \<Rightarrow>
                    if IS_LEAF n then Some (Some (p @ [unat cindex]), p)
                    else leaf_walk_next t (p @ [unat cindex]) 0))"

declare leaf_walk_next.simps [code]

definition leaf_walk_rcu ::
  "key_vector \<Rightarrow> nat list \<Rightarrow> t_key \<Rightarrow> (nat list option \<times> nat list) option" where
  "leaf_walk_rcu t tn k =
     (case get_kv t tn of
        None \<Rightarrow> None
      | Some n \<Rightarrow>
          (case leaf_walk_find k n tn of
             Found l p \<Rightarrow> Some (Some l, p)
           | Scan p cindex \<Rightarrow> leaf_walk_next t p cindex))"

text \<open>
  The loop of \<^verbatim>\<open>fib_table_dump\<close>. \<^verbatim>\<open>fn_trie_dump_leaf\<close> writes into a socket buffer of
  the caller; here it is the function \<open>dump_leaf\<close> that gives its return value for a
  leaf. The result is the error returned (\<open>None\<close> when the loop ends), the values left in
  \<^verbatim>\<open>cb->args[3]\<close> (the key) and \<^verbatim>\<open>cb->args[2]\<close> (the count), and the leaves handed to
  \<^verbatim>\<open>fn_trie_dump_leaf\<close>, in order.
\<close>

partial_function (option) fib_table_dump_loop ::
  "(key_vector \<Rightarrow> int) \<Rightarrow> key_vector \<Rightarrow> nat list \<Rightarrow> t_key \<Rightarrow> int \<Rightarrow> key_vector list \<Rightarrow>
   (int option \<times> t_key \<times> int \<times> key_vector list) option" where
  "fib_table_dump_loop dump_leaf t tp k count seen =
     (case leaf_walk_rcu t tp k of
        None \<Rightarrow> None
      | Some (None, tp') \<Rightarrow> Some (None, k, count, seen)
      | Some (Some lp, tp') \<Rightarrow>
          (case get_kv t lp of
             None \<Rightarrow> None
           | Some l \<Rightarrow>
               if dump_leaf l < 0 then Some (Some (dump_leaf l), k, count, seen @ [l])
               else let k' = key l + 1
                    in if k' < key l then Some (None, k', count + 1, seen @ [l])
                       else fib_table_dump_loop dump_leaf t tp' k' (count + 1) (seen @ [l])))"

declare fib_table_dump_loop.simps [code]

definition fib_table_dump ::
  "(key_vector \<Rightarrow> int) \<Rightarrow> key_vector \<Rightarrow> t_key \<Rightarrow> int \<Rightarrow>
   (int option \<times> t_key \<times> int \<times> key_vector list) option" where
  "fib_table_dump dump_leaf t k count = fib_table_dump_loop dump_leaf t [] k count []"

subsection \<open>Example requests\<close>

text \<open>
  A live route with one next hop, of priority \<open>p\<close>; collaborators that accept every
  request; and a route request for table 254.
\<close>

definition fi_prio :: "nat \<Rightarrow> fib_info" where
  "fi_prio p = \<lparr>fib_priority = p, fib_scope = 0, fib_dead = False, fib_flags_dead = False,
     fib_nh_is_blackhole = False,
     fib_nhs = [\<lparr>nhc_dead = False, nhc_linkdown = False, nhc_ignore_linkdown = False,
                 nhc_oif = 1\<rparr>],
     fib_prefsrc = 0, fib_protocol = 0\<rparr>"

definition ext_ok :: ext where
  "ext_ok = \<lparr>fib_create_info = (\<lambda>cfg. Inr (fi_prio 0)),
     call_fib_entry_yestifiers = (\<lambda>ev k plen fa. 0),
     fib_nh_match = (\<lambda>cfg fi. 0), fib_metrics_match = (\<lambda>cfg fi. True),
     fib_props_error = (\<lambda>ty. 0)\<rparr>"

definition ext_einval :: ext where
  "ext_einval = ext_ok\<lparr>fib_create_info := (\<lambda>cfg. Inl (- EINVAL))\<rparr>"

definition route :: "t_key \<Rightarrow> nat \<Rightarrow> fib_config" where
  "route k plen = \<lparr>fc_dst = k, fc_dst_len = plen, fc_tos = 0, fc_type = 1, fc_scope = 0,
     fc_prefsrc = 0, fc_protocol = 0, NLM_F_REPLACE = False, NLM_F_EXCL = False,
     NLM_F_CREATE = True, NLM_F_APPEND = False\<rparr>"

text \<open>The alias that \<^verbatim>\<open>fib_table_insert\<close> makes for \<open>route k 8\<close>.\<close>

definition fa_new8 :: fib_alias where
  "fa_new8 = \<lparr>fa_info = fi_prio 0, fa_tos = 0, fa_type = 1, fa_accessed = False,
      fa_slen = 24, tb_id = 254\<rparr>"

text \<open>The words of the specification for an invalid prefix.\<close>

definition bad_prefix :: "t_key \<Rightarrow> nat \<Rightarrow> bool" where
  "bad_prefix k plen = (plen > 32 \<or> (plen < 32 \<and> push_bit plen k \<noteq> 0))"

text \<open>
  An error that \<^verbatim>\<open>fib_table_insert\<close> hands on from a collaborator:
  \<^verbatim>\<open>fib_create_info\<close> or the notifier chain returned it.
\<close>

definition passes :: "ext \<Rightarrow> fib_config \<Rightarrow> int \<Rightarrow> bool" where
  "passes x cfg e =
     (fib_create_info x cfg = Inl e \<or>
      (\<exists>ev new_fa. e = call_fib_entry_yestifiers x ev (fc_dst cfg) (fc_dst_len cfg) new_fa))"

subsection \<open>The search path of a key\<close>

text \<open>
  The index under which the search for \<open>k\<close> leaves the node at pointer \<open>p\<close>: 0 at the
  root, \<^verbatim>\<open>get_cindex(key, n)\<close> below it. A pointer is on the search path of \<open>k\<close> when
  every step to it follows that index into an internal node whose skipped bits and index
  bits agree with \<open>k\<close> (\<^verbatim>\<open>index < (1ul << n->bits)\<close>).
\<close>

definition key_index :: "t_key \<Rightarrow> key_vector \<Rightarrow> nat list \<Rightarrow> nat" where
  "key_index k t p =
     (if p = [] then 0
      else case get_kv t p of Some n \<Rightarrow> unat (get_cindex k n) | None \<Rightarrow> 0)"

definition on_search_path :: "t_key \<Rightarrow> key_vector \<Rightarrow> nat list \<Rightarrow> bool" where
  "on_search_path k t p =
     (\<forall>j < length p. p ! j = key_index k t (take j p) \<and>
        (case get_kv t (take (Suc j) p) of
           None \<Rightarrow> False
         | Some c \<Rightarrow> get_cindex k c < push_bit (bits c) 1 \<and> IS_TNODE c))"

text \<open>A property of every node below \<open>n\<close>.\<close>

lemma size_child_mem: "Some c \<in> set (tyesde n) \<Longrightarrow> size c < size n"
proof -
  assume "Some c \<in> set (tyesde n)"
  then have "size_option size (Some c) \<le> size_list (size_option size) (tyesde n)"
    by (rule size_list_estimation') simp
  then show ?thesis by (cases n) simp
qed

function all_below :: "(key_vector \<Rightarrow> bool) \<Rightarrow> key_vector \<Rightarrow> bool" where
  "all_below P n =
     list_all (\<lambda>c. case c of None \<Rightarrow> True | Some m \<Rightarrow> P m \<and> all_below P m) (tyesde n)"
  by pat_completeness auto
termination
  by (relation "measure (\<lambda>(P, n). size n)") (auto simp: size_child_mem)

declare all_below.simps [simp del]

text \<open>A leaf is made by \<^verbatim>\<open>leaf_new\<close>: its \<open>pos\<close> is 0.\<close>

definition leaves_at_pos0 :: "key_vector \<Rightarrow> bool" where
  "leaves_at_pos0 t = all_below (\<lambda>n. IS_LEAF n \<longrightarrow> pos n = 0) t"

text \<open>The trie that holds 10.0.0.0/8 and 10.1.0.0/16.\<close>

definition trie_10 :: key_vector where
  "trie_10 = KV 0 32 0 32 [] [Some (KV 0x0A000000 15 2 24 []
      [Some (KV 0x0A000000 0 0 24 [fa_new8] [] 0 0), None,
       Some (KV 0x0A010000 0 0 16 [fa_new8\<lparr>fa_slen := 16\<rparr>] [] 0 0), None] 2 0)] 0 0"


subsection \<open>The identity of a route\<close>








subsection \<open>Invariants of the suffix lengths and positions\<close>

text \<open>
  A relation that holds between every node at or below \<open>n\<close> and each of its children.
  \<open>slen_ok\<close>: the root has \<open>slen = KEYLENGTH\<close> (\<^verbatim>\<open>fib_trie_table\<close>) and no child has a
  larger \<open>slen\<close> than its parent (\<^verbatim>\<open>put_child\<close>).
\<close>

function all_edges :: "(key_vector \<Rightarrow> key_vector \<Rightarrow> bool) \<Rightarrow> key_vector \<Rightarrow> bool" where
  "all_edges R n =
     list_all (\<lambda>c. case c of None \<Rightarrow> True | Some m \<Rightarrow> R n m \<and> all_edges R m) (tyesde n)"
  by pat_completeness auto
termination
  by (relation "measure (\<lambda>(R, n). size n)") (auto simp: size_child_mem)

declare all_edges.simps [simp del]

definition slen_ok :: "key_vector \<Rightarrow> bool" where
  "slen_ok t = (slen t = KEYLENGTH \<and> all_edges (\<lambda>n c. slen c \<le> slen n) t)"

text \<open>
  \<open>all_slots R n\<close>: \<open>R m i c\<close> holds of every node \<open>m\<close> at or below \<open>n\<close> and its child \<open>c\<close>
  in slot \<open>i\<close>. \<open>key_structure\<close> is the shape that \<^verbatim>\<open>tnode_new\<close>, \<^verbatim>\<open>leaf_new\<close> and
  \<^verbatim>\<open>put_child\<close> keep: the root has one slot; an internal node has \<open>2 ^ bits\<close> slots and a
  key whose bits below \<open>pos + bits\<close> are zero; a leaf has \<open>pos = bits = 0\<close> and no slots;
  a child is stored in the slot \<^verbatim>\<open>get_index(child->key, parent)\<close> and its \<open>pos + bits\<close>
  does not exceed the \<open>pos\<close> of its parent.
\<close>

function all_slots :: "(key_vector \<Rightarrow> nat \<Rightarrow> key_vector \<Rightarrow> bool) \<Rightarrow> key_vector \<Rightarrow> bool" where
  "all_slots R n =
     list_all (\<lambda>i. case get_child n i of None \<Rightarrow> True | Some m \<Rightarrow> R n i m \<and> all_slots R m)
       [0..<length (tyesde n)]"
  by pat_completeness auto
termination
  by (relation "measure (\<lambda>(R, n). size n)") (auto simp: size_get_child)

declare all_slots.simps [simp del]

definition node_shape :: "key_vector \<Rightarrow> bool" where
  "node_shape c =
     (if bits c = 0 then pos c = 0 \<and> tyesde c = []
      else pos c + bits c \<le> KEYLENGTH \<and> length (tyesde c) = 2 ^ bits c \<and>
           take_bit (pos c + bits c) (key c) = 0)"

definition key_edge :: "key_vector \<Rightarrow> nat \<Rightarrow> key_vector \<Rightarrow> bool" where
  "key_edge n i c = (unat (get_index (key c) n) = i \<and> pos c + bits c \<le> pos n \<and> node_shape c)"

definition key_structure :: "key_vector \<Rightarrow> bool" where
  "key_structure t =
     (pos t = KEYLENGTH \<and> bits t = 0 \<and> length (tyesde t) = 1 \<and> all_slots key_edge t)"


text \<open>
  \<open>frame t t' R\<close>: the trie \<open>t'\<close> has a node exactly where \<open>t\<close> has one, with the same
  fields but \<open>slen\<close>, and \<open>R q a b\<close> holds of the old and the new \<open>slen\<close> at every
  pointer \<open>q\<close>. \<open>below_sl t tn sl q\<close>: every node on the way from \<open>q\<close> down to \<open>tn\<close>
  has \<open>slen < sl\<close> in \<open>t\<close>. \<open>path_slen_ok\<close> is \<open>slen_ok\<close> for the nodes from the root
  to \<open>tn\<close> only.
\<close>

definition hdr :: "key_vector \<Rightarrow> t_key \<times> nat \<times> nat \<times> fib_alias list \<times> t_key \<times> t_key \<times> nat" where
  "hdr n = (key n, pos n, bits n, leaf n, empty_children n, full_children n, length (tyesde n))"

definition frame :: "key_vector \<Rightarrow> key_vector \<Rightarrow> (nat list \<Rightarrow> nat \<Rightarrow> nat \<Rightarrow> bool) \<Rightarrow> bool" where
  "frame t t' R =
     (\<forall>q. case get_kv t q of
            None \<Rightarrow> get_kv t' q = None
          | Some m \<Rightarrow> (\<exists>m'. get_kv t' q = Some m' \<and> hdr m' = hdr m \<and> R q (slen m) (slen m')))"

definition below_sl :: "key_vector \<Rightarrow> nat list \<Rightarrow> nat \<Rightarrow> nat list \<Rightarrow> bool" where
  "below_sl t tn sl q =
     (\<forall>j. length q \<le> j \<and> j \<le> length tn \<longrightarrow>
          (\<exists>m. get_kv t (take j tn) = Some m \<and> slen m < sl))"

definition path_slen_ok :: "key_vector \<Rightarrow> nat list \<Rightarrow> bool" where
  "path_slen_ok t tn =
     (slen t \<le> pos t \<and>
      (\<forall>j \<le> length tn. \<exists>m. get_kv t (take j tn) = Some m \<and> slen m \<le> KEYLENGTH \<and>
           (\<forall>i c. get_child m i = Some c \<longrightarrow> slen c \<le> slen m)))"

subsection \<open>What a call of resize leaves behind\<close>





subsection \<open>A root child pushed one level down\<close>





text \<open>
  \<open>trie_10\<close> after the /8 alias of the leaf 10.0.0.0 was replaced by a /32 alias and the
  \<open>slen\<close> of the leaf set to 0, and before the \<open>slen\<close> of its parent is pulled.
\<close>

definition stale_10 :: key_vector where
  "stale_10 =
     (case at_path [0, 0] (\<lambda>m. Some (set_slen 0 (set_leaf [fa_new8\<lparr>fa_slen := 0\<rparr>] m))) trie_10 of
        Some t \<Rightarrow> t
      | None \<Rightarrow> trie_10)"

section \<open>Properties\<close>

subsection \<open>Word arithmetic of the thresholds\<close>

lemma child_length_pow: "1 \<le> bits tn \<Longrightarrow> child_length tn = 2 ^ bits tn"
  unfolding child_length_def
  apply (rule bit_word_eqI)
  apply (auto simp add: bit_simps)
  done

lemma unat_pow64: "b < 64 \<Longrightarrow> unat ((2::ulong) ^ b) = 2 ^ b"
proof -
  assume b: "b < 64"
  have "unat (word_of_nat (2 ^ b) :: ulong) = 2 ^ b mod 2 ^ LENGTH(64)" by (rule unat_of_nat)
  then have "unat ((2::ulong) ^ b) = 2 ^ b mod 2 ^ 64" by simp
  moreover have "(2::nat) ^ b < 2 ^ 64" using b by (rule_tac power_strict_increasing) auto
  ultimately show ?thesis by simp
qed

lemma unat_ucast_32_64: "unat (ucast (e::t_key) :: ulong) = unat e"
proof -
  have "unat e < 2 ^ 32" using unsigned_less [of e, where 'a=nat] by simp
  then have "unat e < 2 ^ 64" by simp
  moreover have "unat (word_of_nat (unat e) :: ulong) = unat e mod 2 ^ LENGTH(64)" by (rule unat_of_nat)
  ultimately show ?thesis by simp
qed

lemma pow_le_32: "b \<le> 31 \<Longrightarrow> (2::nat) ^ b \<le> 2147483648"
proof -
  assume "b \<le> 31"
  then have "(2::nat) ^ b \<le> 2 ^ 31" by (rule power_increasing) simp
  then show ?thesis by simp
qed

lemma used_inflate_unat:
  assumes b: "1 \<le> bits tn" "bits tn \<le> 31"
    and e: "unat (empty_children tn) \<le> 2 ^ bits tn"
    and f: "unat (full_children tn) \<le> 2 ^ bits tn - unat (empty_children tn)"
  shows "unat (child_length tn - ucast (empty_children tn) + ucast (full_children tn))
         = 2 ^ bits tn - unat (empty_children tn) + unat (full_children tn)"
proof -
  have p: "(2::nat) ^ bits tn \<le> 2147483648" using b pow_le_32 by blast
  have cl: "unat (child_length tn) = 2 ^ bits tn"
    using b by (simp add: child_length_pow unat_pow64)
  have le: "(ucast (empty_children tn) :: ulong) \<le> child_length tn"
    using e cl by (simp add: word_le_nat_alt unat_ucast_32_64)
  have s: "unat (child_length tn - ucast (empty_children tn)) = 2 ^ bits tn - unat (empty_children tn)"
    using unat_sub [OF le] cl by (simp add: unat_ucast_32_64)
  have "unat (child_length tn - ucast (empty_children tn)) + unat (ucast (full_children tn) :: ulong) < 2 ^ LENGTH(64)"
    using s e f p by (simp add: unat_ucast_32_64)
  then have "unat (child_length tn - ucast (empty_children tn) + ucast (full_children tn))
     = unat (child_length tn - ucast (empty_children tn)) + unat (ucast (full_children tn) :: ulong)"
    by (simp only: unat_add_lem)
  then show ?thesis using s by (simp add: unat_ucast_32_64)
qed


subsection \<open>should\_inflate\<close>

definition tn_half_full :: key_vector where
  "tn_half_full = KV 0 5 2 5 [] [None, None, None, None] 2 0"

definition tn_two_of_two :: key_vector where
  "tn_two_of_two = KV 0 5 1 5 [] [None, None] 0 0"

definition tp_inner :: key_vector where
  "tp_inner = KV 0 7 1 7 [] [None, None] 1 0"

text \<open>
  C4, as the code has it: for a node with honest counters, \<^verbatim>\<open>should_inflate\<close> is true
  exactly when the node is not maximal (\<open>pos \<noteq> 0\<close>), the count \<open>occupied + full_children\<close>
  exceeds one, and that count reaches the threshold (50 percent, 30 percent under the
  root) of the capacity of the \<^emph>\<open>doubled\<close> node, \<open>2 * capacity\<close>.
\<close>

theorem should_inflate_doubled_capacity:
  assumes ok: "counters_ok tn"
  shows "should_inflate tp tn \<longleftrightarrow>
    (1 < occupied tn + unat (full_children tn) \<and> pos tn \<noteq> 0 \<and>
     100 * (occupied tn + unat (full_children tn)) \<ge> inflate_percent tp * (2 * capacity tn))"
proof (cases "pos tn = 0")
  case True
  then show ?thesis by (simp add: should_inflate_def Let_def)
next
  case False
  with ok have b: "1 \<le> bits tn" "bits tn \<le> 31"
    and e: "unat (empty_children tn) \<le> 2 ^ bits tn"
    and f: "unat (full_children tn) \<le> 2 ^ bits tn - unat (empty_children tn)"
    by (auto simp: counters_ok_def KEYLENGTH_def capacity_def occupied_def split: if_splits)
  have p: "(2::nat) ^ bits tn \<le> 2147483648" using b pow_le_32 by blast
  define u where "u = child_length tn - ucast (empty_children tn) + ucast (full_children tn)"
  define n where "n = 2 ^ bits tn - unat (empty_children tn) + unat (full_children tn)"
  have un: "unat u = n" unfolding u_def n_def by (rule used_inflate_unat [OF b e f])
  have nle: "n \<le> 4294967296" using e f p unfolding n_def by linarith
  have cl: "unat (child_length tn) = 2 ^ bits tn"
    using b by (simp add: child_length_pow unat_pow64)
  have m50: "unat (50 * u) = 50 * n"
  proof -
    have "unat (50::ulong) * unat u < 2 ^ LENGTH(64)" using un nle by simp
    then have "unat (50 * u) = unat (50::ulong) * unat u" by (simp only: unat_mult_lem)
    then show ?thesis using un by simp
  qed
  have thr: "unat (child_length tn * (if IS_TRIE tp then inflate_threshold_root else inflate_threshold))
     = 2 ^ bits tn * inflate_percent tp"
  proof -
    let ?c = "(if IS_TRIE tp then inflate_threshold_root else inflate_threshold)"
    have c: "unat ?c = inflate_percent tp"
      by (simp add: inflate_percent_def inflate_threshold_root_def inflate_threshold_def)
    have "inflate_percent tp \<le> 50" by (simp add: inflate_percent_def)
    then have "2 ^ bits tn * inflate_percent tp \<le> 2147483648 * 50"
      using p by (rule_tac mult_le_mono) auto
    then have "unat (child_length tn) * unat ?c < 2 ^ LENGTH(64)" using cl c by simp
    then have "unat (child_length tn * ?c) = unat (child_length tn) * unat ?c"
      by (simp only: unat_mult_lem)
    then show ?thesis using cl c by simp
  qed
  have "should_inflate tp tn \<longleftrightarrow> (1 < n \<and> pos tn \<noteq> 0 \<and> 2 ^ bits tn * inflate_percent tp \<le> 50 * n)"
    unfolding should_inflate_def Let_def u_def [symmetric]
    by (simp add: word_less_nat_alt word_le_nat_alt un m50 thr)
  also have "\<dots> \<longleftrightarrow> (1 < occupied tn + unat (full_children tn) \<and> pos tn \<noteq> 0 \<and>
     100 * (occupied tn + unat (full_children tn)) \<ge> inflate_percent tp * (2 * capacity tn))"
    unfolding n_def occupied_def capacity_def by (auto simp: algebra_simps)
  finally show ?thesis .
qed


theorem should_inflate_doubled_capacity_witness:
  "counters_ok tn_two_of_two \<and> should_inflate tp_inner tn_two_of_two \<and>
   1 < occupied tn_two_of_two + unat (full_children tn_two_of_two)"
  using should_inflate_doubled_capacity [of tn_two_of_two tp_inner]
  by (simp add: counters_ok_def tn_two_of_two_def tp_inner_def KEYLENGTH_def capacity_def
      occupied_def inflate_percent_def IS_TRIE_def)

text \<open>
  C4 as stated fails: a four-slot node with two children and no full child, under an
  inner parent, has reached 50 percent of its own capacity and has \<open>pos > 0\<close>, yet
  \<^verbatim>\<open>should_inflate\<close> is false.
\<close>

theorem should_inflate_own_capacity_counterexample:
  "counters_ok tn_half_full \<and> \<not> IS_TRIE tp_inner \<and> 0 < pos tn_half_full \<and>
   100 * (occupied tn_half_full + unat (full_children tn_half_full))
     \<ge> inflate_percent tp_inner * capacity tn_half_full \<and>
   \<not> should_inflate tp_inner tn_half_full"
  by (simp add: counters_ok_def tn_half_full_def tp_inner_def KEYLENGTH_def capacity_def
      occupied_def inflate_percent_def IS_TRIE_def should_inflate_def child_length_def
      inflate_threshold_def inflate_threshold_root_def)

subsection \<open>The order of the alias list\<close>

lemma alias_before_trans: "alias_before a b \<Longrightarrow> alias_before b c \<Longrightarrow> alias_before a c"
  by (auto simp: alias_before_def)

lemma alias_before_same_l: "same_section a b \<Longrightarrow> alias_before a c \<longleftrightarrow> alias_before b c"
  by (auto simp: alias_before_def same_section_def)

lemma alias_before_same_r: "same_section a b \<Longrightarrow> alias_before c a \<longleftrightarrow> alias_before c b"
  by (auto simp: alias_before_def same_section_def)

lemma alias_before_refl: "same_section a b \<Longrightarrow> alias_before a b"
  by (auto simp: alias_before_def same_section_def)

lemma set_insert_behind_last: "set (insert_behind_last new xs) = insert new (set xs)"
  by (induction xs) auto

lemma sorted_insert_behind_last:
  "sorted_wrt alias_before xs \<Longrightarrow> sorted_wrt alias_before (insert_behind_last new xs)"
proof (induction xs)
  case Nil
  then show ?case by simp
next
  case (Cons x xs)
  show ?case
  proof (cases "fa_slen new < fa_slen x \<or> (fa_slen new = fa_slen x \<and> tb_id new > tb_id x)")
    case True
    then have nx: "alias_before new x" by (auto simp: alias_before_def)
    have "\<forall>y\<in>set xs. alias_before new y"
      using Cons.prems nx by (auto intro: alias_before_trans)
    with True nx Cons.prems show ?thesis by auto
  next
    case False
    then have xn: "alias_before x new" by (auto simp: alias_before_def)
    from False have "insert_behind_last new (x # xs) = x # insert_behind_last new xs" by auto
    moreover have "sorted_wrt alias_before (insert_behind_last new xs)"
      using Cons by simp
    moreover have "\<forall>y\<in>set (insert_behind_last new xs). alias_before x y"
      using Cons.prems xn by (auto simp: set_insert_behind_last)
    ultimately show ?thesis by simp
  qed
qed

lemma sorted_add_before:
  assumes s: "sorted_wrt alias_before fah" and i: "i < length fah"
    and c: "same_section (fah ! i) new \<or> (0 < i \<and> same_section (fah ! (i - 1)) new)"
  shows "sorted_wrt alias_before (take i fah @ new # drop i fah)"
proof -
  have nth: "\<And>j k. j < k \<Longrightarrow> k < length fah \<Longrightarrow> alias_before (fah ! j) (fah ! k)"
    using s by (simp add: sorted_wrt_iff_nth_less)
  have before: "alias_before (fah ! j) new" if "j < i" for j
  proof -
    from c show ?thesis
    proof
      assume a: "same_section (fah ! i) new"
      have "alias_before (fah ! j) (fah ! i)" using nth that i by simp
      then show ?thesis using alias_before_same_r [OF a] by simp
    next
      assume a: "0 < i \<and> same_section (fah ! (i - 1)) new"
      show ?thesis
      proof (cases "j = i - 1")
        case True
        then show ?thesis using a alias_before_refl by simp
      next
        case False
        then have "j < i - 1" using that by simp
        then have "alias_before (fah ! j) (fah ! (i - 1))" using nth i by simp
        then show ?thesis using a alias_before_same_r by blast
      qed
    qed
  qed
  have after: "alias_before new (fah ! k)" if "i \<le> k" "k < length fah" for k
  proof -
    from c show ?thesis
    proof
      assume a: "same_section (fah ! i) new"
      show ?thesis
      proof (cases "k = i")
        case True
        then show ?thesis using a by (auto simp: alias_before_def same_section_def)
      next
        case False
        then have "alias_before (fah ! i) (fah ! k)" using nth that by simp
        then show ?thesis using alias_before_same_l [OF a] by simp
      qed
    next
      assume a: "0 < i \<and> same_section (fah ! (i - 1)) new"
      then have "i - 1 < k" using that by linarith
      then have "alias_before (fah ! (i - 1)) (fah ! k)" using nth that by simp
      then show ?thesis using a alias_before_same_l by blast
    qed
  qed
  have 1: "sorted_wrt alias_before (take i fah)" using s by (rule sorted_wrt_take)
  have 2: "sorted_wrt alias_before (drop i fah)" using s by (rule sorted_wrt_drop)
  have 3: "\<forall>x\<in>set (take i fah). alias_before x new"
    using before i by (auto simp: in_set_conv_nth)
  have 4: "\<forall>y\<in>set (drop i fah). alias_before new y"
    using after i by (auto simp: in_set_conv_nth)
  have 5: "\<forall>x\<in>set (take i fah). \<forall>y\<in>set (drop i fah). alias_before x y"
    using 3 4 by (blast intro: alias_before_trans)
  show ?thesis using 1 2 3 4 5 by (simp add: sorted_wrt_append)
qed

text \<open>Two routes of table 254 to one key: a /32 and a /24.\<close>

definition fa_32 :: fib_alias where
  "fa_32 = \<lparr>fa_info = \<lparr>fib_priority = 0, fib_scope = 0, fib_dead = False,
       fib_flags_dead = False, fib_nh_is_blackhole = False, fib_nhs = [],
       fib_prefsrc = 0, fib_protocol = 0\<rparr>,
     fa_tos = 0, fa_type = 1, fa_accessed = False, fa_slen = 0, tb_id = 254\<rparr>"

definition fa_24 :: fib_alias where
  "fa_24 = fa_32\<lparr>fa_slen := 8\<rparr>"

text \<open>
  C2, as the code has it: the alias list of a leaf is ordered by ascending suffix
  length, then by descending table id, and the list insertion of \<^verbatim>\<open>fib_insert_alias\<close>
  keeps that order, at NULL and at every position its caller supplies.
\<close>

theorem alias_order_kept:
  "sorted_wrt alias_before fah \<Longrightarrow> caller_position fah new fa \<Longrightarrow>
   sorted_wrt alias_before (fib_insert_alias_list fah new fa)"
  by (auto simp: fib_insert_alias_list_def caller_position_def sorted_insert_behind_last
      sorted_add_before split: option.splits)

theorem alias_order_kept_witness:
  "sorted_wrt alias_before [fa_32] \<and> caller_position [fa_32] fa_24 None \<and>
   fib_insert_alias_list [fa_32] fa_24 None = [fa_32, fa_24] \<and>
   sorted_wrt alias_before [fa_32, fa_24]"
  using alias_order_kept [of "[fa_32]" fa_24 None]
  by (simp add: caller_position_def fib_insert_alias_list_def fa_24_def fa_32_def)

text \<open>
  C2 as stated fails: adding a /24 to a leaf that holds a /32 puts the longer suffix
  behind the shorter one, so the list is not in descending suffix length.
\<close>

theorem spec_alias_order_counterexample:
  "sorted_wrt spec_alias_before [fa_32] \<and>
   \<not> sorted_wrt spec_alias_before (fib_insert_alias_list [fa_32] fa_24 None)"
  by (simp add: fib_insert_alias_list_def fa_24_def fa_32_def spec_alias_before_def)



subsection \<open>What fib\_table\_insert and fib\_table\_delete return\<close>

lemma fib_insert_yesde_case3_zero:
  "fib_insert_yesde_case3 fuel s tp l new k = Some (e, s') \<Longrightarrow> e = 0"
  by (auto simp: fib_insert_yesde_case3_def split: option.splits)

lemma fib_insert_yesde_result:
  "fib_insert_yesde fuel s tp new k = Some (e, s') \<Longrightarrow> e = 0 \<or> (e = - ENOMEM \<and> fst s' = fst s)"
  unfolding fib_insert_yesde_def
  by (auto split: option.splits prod.splits dest: fib_insert_yesde_case3_zero)

lemma fib_insert_alias_result:
  "fib_insert_alias fuel s tp l new fa k = Some (e, s') \<Longrightarrow> e = 0 \<or> (e = - ENOMEM \<and> fst s' = fst s)"
  unfolding fib_insert_alias_def
  by (auto simp: Let_def split: option.splits if_splits dest: fib_insert_yesde_result)

lemma fib_table_insert_create_result:
  "fib_table_insert_create fuel x tb cfg s fi tp l fa ev = Some (e, s') \<Longrightarrow>
   e = 0 \<or> (fst s' = fst s \<and>
     (e = - ENOENT \<or> e = - ENOBUFS \<or> e = - ENOMEM \<or> passes x cfg e))"
  unfolding fib_table_insert_create_def passes_def
  by (auto simp: Let_def split: option.splits if_splits prod.splits bool.splits
      dest!: fib_insert_alias_result)

lemma fib_table_insert_replace_result:
  "fib_table_insert_replace x tb cfg s fi l fah i fa_match = Some (e, s') \<Longrightarrow>
   e = 0 \<or> (fst s' = fst s \<and> (e = - EEXIST \<or> e = - ENOBUFS \<or> passes x cfg e))"
  unfolding fib_table_insert_replace_def passes_def
  by (auto simp: Let_def split: option.splits if_splits prod.splits bool.splits)

lemma fib_table_insert_found_result:
  "fib_table_insert_found fuel x tb cfg s fi tp l fah i = Some (e, s') \<Longrightarrow>
   e = 0 \<or> (fst s' = fst s \<and>
     (e = - EEXIST \<or> e = - ENOENT \<or> e = - ENOBUFS \<or> e = - ENOMEM \<or> passes x cfg e))"
  unfolding fib_table_insert_found_def
  by (auto simp: Let_def split: if_splits prod.splits
      dest!: fib_table_insert_create_result fib_table_insert_replace_result)

lemma fib_table_insert_result:
  "fib_table_insert fuel x tb cfg s = Some (e, s') \<Longrightarrow>
   e = 0 \<or> (fst s' = fst s \<and>
     ((e = - EINVAL \<and> \<not> fib_valid_key_len (fc_dst cfg) (fc_dst_len cfg)) \<or>
      e = - EEXIST \<or> e = - ENOENT \<or> e = - ENOBUFS \<or> e = - ENOMEM \<or> passes x cfg e))"
  unfolding fib_table_insert_def
  by (auto simp: Let_def passes_def split: if_splits sum.splits prod.splits option.splits
      dest!: fib_table_insert_create_result fib_table_insert_found_result)


lemma fib_table_delete_result:
  "fib_table_delete fuel x tb cfg s = Some (e, s') \<Longrightarrow>
   e = 0 \<or> (s' = s \<and> ((e = - EINVAL \<and> \<not> fib_valid_key_len (fc_dst cfg) (fc_dst_len cfg)) \<or>
                         e = - ESRCH))"
  unfolding fib_table_delete_def
  by (auto simp: Let_def split: if_splits prod.splits option.splits)

lemma bad_prefix_iff: "bad_prefix k plen \<longleftrightarrow> \<not> fib_valid_key_len k plen"
  by (auto simp: bad_prefix_def fib_valid_key_len_def KEYLENGTH_def)

text \<open>
  C5, as the code has it. A bad prefix makes both functions return \<open>-EINVAL\<close> at once,
  with the state untouched. \<^verbatim>\<open>fib_table_delete\<close> returns \<open>-EINVAL\<close> for no other reason.
  \<^verbatim>\<open>fib_table_insert\<close> returns \<open>-EINVAL\<close> otherwise only when \<^verbatim>\<open>fib_create_info\<close> or the
  notifier chain returned it, and then too the trie is unchanged.
\<close>

theorem einval_exactly_bad_prefix:
  "(bad_prefix (fc_dst cfg) (fc_dst_len cfg) \<longrightarrow>
      fib_table_insert fuel x tb cfg s = Some (- EINVAL, s) \<and>
      fib_table_delete fuel x tb cfg s = Some (- EINVAL, s)) \<and>
   (fib_table_delete fuel x tb cfg s = Some (- EINVAL, s') \<longrightarrow>
      bad_prefix (fc_dst cfg) (fc_dst_len cfg) \<and> s' = s) \<and>
   (fib_table_insert fuel x tb cfg s = Some (- EINVAL, s') \<longrightarrow>
      fst s' = fst s \<and>
      (bad_prefix (fc_dst cfg) (fc_dst_len cfg) \<or> passes x cfg (- EINVAL)))"
proof (intro conjI impI)
  assume "bad_prefix (fc_dst cfg) (fc_dst_len cfg)"
  then have nv: "\<not> fib_valid_key_len (fc_dst cfg) (fc_dst_len cfg)"
    by (simp add: bad_prefix_iff)
  show "fib_table_insert fuel x tb cfg s = Some (- EINVAL, s)"
    using nv by (simp add: fib_table_insert_def)
  show "fib_table_delete fuel x tb cfg s = Some (- EINVAL, s)"
    using nv by (simp add: fib_table_delete_def)
next
  assume d: "fib_table_delete fuel x tb cfg s = Some (- EINVAL, s')"
  from fib_table_delete_result [OF d]
  show "bad_prefix (fc_dst cfg) (fc_dst_len cfg)"
    by (auto simp: bad_prefix_iff EINVAL_def ESRCH_def)
  from fib_table_delete_result [OF d]
  show "s' = s" by (auto simp: EINVAL_def)
next
  assume i: "fib_table_insert fuel x tb cfg s = Some (- EINVAL, s')"
  from fib_table_insert_result [OF i]
  show "fst s' = fst s" by (auto simp: EINVAL_def)
  from fib_table_insert_result [OF i]
  show "bad_prefix (fc_dst cfg) (fc_dst_len cfg) \<or> passes x cfg (- EINVAL)"
    by (auto simp: bad_prefix_iff EINVAL_def EEXIST_def ENOENT_def ENOBUFS_def ENOMEM_def)
qed

theorem einval_exactly_bad_prefix_witness:
  "bad_prefix (fc_dst (route 0x0A000001 8)) (fc_dst_len (route 0x0A000001 8)) \<and>
   fib_table_insert 0 ext_ok 254 (route 0x0A000001 8) (trie_init, []) =
     Some (- EINVAL, (trie_init, [])) \<and>
   fib_table_delete 0 ext_ok 254 (route 0x0A000001 8) (trie_init, []) =
     Some (- EINVAL, (trie_init, []))"
  using einval_exactly_bad_prefix [of "route 0x0A000001 8" 0 ext_ok 254 "(trie_init, [])"]
  by (simp add: bad_prefix_def route_def)

text \<open>
  C5 as stated fails for \<^verbatim>\<open>fib_table_insert\<close>: with a valid prefix (10.0.0.0/8) it returns
  \<open>-EINVAL\<close> when \<^verbatim>\<open>fib_create_info\<close> does.
\<close>

theorem einval_without_bad_prefix_counterexample:
  "\<not> bad_prefix (fc_dst (route 0x0A000000 8)) (fc_dst_len (route 0x0A000000 8)) \<and>
   fib_table_insert 0 ext_einval 254 (route 0x0A000000 8) (trie_init, []) =
     Some (- EINVAL, (trie_init, []))"
  by (simp add: bad_prefix_def route_def fib_table_insert_def fib_valid_key_len_def
      KEYLENGTH_def ext_einval_def ext_ok_def)

subsection \<open>Allocation failure in the structural insert\<close>

text \<open>
  C6: when \<^verbatim>\<open>fib_table_insert\<close> reaches \<^verbatim>\<open>fib_insert_node\<close> (no leaf has the key, the
  request may create, the alias was allocated and the notifiers agreed) and
  \<^verbatim>\<open>fib_insert_node\<close> fails, the error is \<open>-ENOMEM\<close>, \<^verbatim>\<open>fib_table_insert\<close> returns it, and
  the trie is the one before the call.
\<close>

theorem structural_insert_enomem:
  assumes valid: "fib_valid_key_len (fc_dst cfg) (fc_dst_len cfg)"
    and info: "fib_create_info x cfg = Inr fi"
    and found: "fib_find_yesde (fst s) (fc_dst cfg) = (None, tp)"
    and create: "NLM_F_CREATE cfg"
    and al: "alloc (snd s) = (True, al1)"
    and new: "new_fa = \<lparr>fa_info = fi, fa_tos = fc_tos cfg, fa_type = fc_type cfg,
                fa_accessed = False,
                fa_slen = nat ((int KEYLENGTH - int (fc_dst_len cfg)) mod 256), tb_id = tb\<rparr>"
    and notif: "call_fib_entry_yestifiers x FIB_EVENT_ENTRY_ADD (fc_dst cfg) (fc_dst_len cfg)
                  new_fa = 0"
    and fails: "fib_insert_yesde fuel (fst s, al1) tp new_fa (fc_dst cfg) = Some (e, s1)"
    and e: "e \<noteq> 0"
  shows "e = - ENOMEM \<and> fst s1 = fst s \<and>
         fib_table_insert fuel x tb cfg s = Some (- ENOMEM, s1)"
proof -
  from fib_insert_yesde_result [OF fails] e
  have 1: "e = - ENOMEM" and 2: "fst s1 = fst s" by auto
  have "fib_insert_alias fuel (fst s, al1) tp None new_fa None (fc_dst cfg) = Some (e, s1)"
    using fails by (simp add: fib_insert_alias_def)
  then have "fib_table_insert_create fuel x tb cfg s fi tp None None FIB_EVENT_ENTRY_ADD
             = Some (e, s1)"
    using create al notif new by (simp add: fib_table_insert_create_def Let_def)
  then have "fib_table_insert fuel x tb cfg s = Some (e, s1)"
    using valid info found by (simp add: fib_table_insert_def Let_def)
  with 1 2 show ?thesis by simp
qed

theorem structural_insert_enomem_witness:
  "fib_table_insert 1 ext_ok 254 (route 0x0A000000 8) (trie_init, [True, False])
     = Some (- ENOMEM, (trie_init, []))"
proof -
  have 1: "fib_valid_key_len (fc_dst (route 0x0A000000 8)) (fc_dst_len (route 0x0A000000 8))"
    by (simp add: route_def fib_valid_key_len_def KEYLENGTH_def)
  have 2: "fib_create_info ext_ok (route 0x0A000000 8) = Inr (fi_prio 0)"
    by (simp add: ext_ok_def)
  have 3: "fib_find_yesde (fst (trie_init, [True, False])) (fc_dst (route 0x0A000000 8)) = (None, [])"
    by (simp add: fib_find_yesde_def trie_init_def get_child_def fib_find_yesde_loop.simps)
  have 4: "NLM_F_CREATE (route 0x0A000000 8)" by (simp add: route_def)
  have 5: "alloc (snd (trie_init, [True, False])) = (True, [False])" by (simp add: alloc_def)
  have 6: "fa_new8 = \<lparr>fa_info = fi_prio 0, fa_tos = fc_tos (route 0x0A000000 8),
      fa_type = fc_type (route 0x0A000000 8), fa_accessed = False,
      fa_slen = nat ((int KEYLENGTH - int (fc_dst_len (route 0x0A000000 8))) mod 256), tb_id = 254\<rparr>"
    by (simp add: fa_new8_def route_def KEYLENGTH_def)
  have 7: "call_fib_entry_yestifiers ext_ok FIB_EVENT_ENTRY_ADD (fc_dst (route 0x0A000000 8))
      (fc_dst_len (route 0x0A000000 8)) fa_new8 = 0"
    by (simp add: ext_ok_def)
  have 8: "fib_insert_yesde 1 (fst (trie_init, [True, False]), [False]) [] fa_new8
      (fc_dst (route 0x0A000000 8)) = Some (- ENOMEM, (trie_init, []))"
    by (simp add: fib_insert_yesde_def leaf_new_def alloc_def)
  have 9: "- ENOMEM \<noteq> 0" by (simp add: ENOMEM_def)
  from structural_insert_enomem [OF 1 2 3 4 5 6 7 8 9] show ?thesis by simp
qed



subsection \<open>fib\_find\_node\<close>

lemma get_kv_append:
  "get_kv t (p @ q) = (case get_kv t p of None \<Rightarrow> None | Some n \<Rightarrow> get_kv n q)"
  by (induction p arbitrary: t) (auto split: option.splits)

lemma get_kv_snoc:
  "get_kv t (p @ [i]) = (case get_kv t p of None \<Rightarrow> None | Some n \<Rightarrow> get_child n i)"
  by (simp add: get_kv_append split: option.splits)

lemma on_search_path_snoc:
  "on_search_path k t (p @ [i]) \<longleftrightarrow>
     on_search_path k t p \<and> i = key_index k t p \<and>
     (case get_kv t (p @ [i]) of None \<Rightarrow> False
      | Some c \<Rightarrow> get_cindex k c < push_bit (bits c) 1 \<and> IS_TNODE c)"
  unfolding on_search_path_def
  by (simp add: less_Suc_eq all_conj_distrib nth_append)

lemma find_loop_inv:
  assumes "get_kv t p = Some pn" "on_search_path k t p" "index = key_index k t p"
  shows "case fib_find_yesde_loop k pn p index of
           (r, tp) \<Rightarrow> on_search_path k t tp \<and> \<not> on_search_path k t (tp @ [key_index k t tp]) \<and>
             (case r of
                None \<Rightarrow> True
              | Some l \<Rightarrow> l = tp @ [key_index k t tp] \<and>
                  (\<exists>n. get_kv t l = Some n \<and> IS_LEAF n \<and> drop_bit (pos n) (k XOR key n) = 0))"
  using assms
proof (induction k pn p index rule: fib_find_yesde_loop.induct)
  case (1 k pn p index)
  note pn = "1.prems"(1) and sp = "1.prems"(2) and idx = "1.prems"(3)
  show ?case
  proof (cases "get_child pn index")
    case None
    then have "get_kv t (p @ [index]) = None" using pn by (simp add: get_kv_snoc)
    moreover have "fib_find_yesde_loop k pn p index = (None, p)"
      using None by (subst fib_find_yesde_loop.simps) simp
    ultimately show ?thesis using sp idx by (simp add: on_search_path_snoc)
  next
    case (Some n)
    then have g: "get_kv t (p @ [index]) = Some n" using pn by (simp add: get_kv_snoc)
    show ?thesis
    proof (cases "get_cindex k n \<ge> push_bit (bits n) 1")
      case True
      then have "\<not> get_cindex k n < push_bit (bits n) 1" by (simp only: not_less)
      then have "\<not> on_search_path k t (p @ [index])"
        using g by (simp only: on_search_path_snoc) simp
      moreover have "fib_find_yesde_loop k pn p index = (None, p)"
        using Some True by (subst fib_find_yesde_loop.simps) (simp add: Let_def)
      ultimately show ?thesis using sp idx by simp
    next
      case False
      note inrange = this
      then have lt: "get_cindex k n < push_bit (bits n) 1" by (simp only: not_le)
      show ?thesis
      proof (cases "IS_TNODE n")
        case True
        have sp': "on_search_path k t (p @ [index])"
          using sp idx g True lt by (simp only: on_search_path_snoc) simp
        have ki: "unat (get_cindex k n) = key_index k t (p @ [index])"
          using g by (simp add: key_index_def)
        have eq: "fib_find_yesde_loop k pn p index
            = fib_find_yesde_loop k n (p @ [index]) (unat (get_cindex k n))"
          using Some inrange True by (subst fib_find_yesde_loop.simps) (simp add: Let_def)
        from "1.IH" [OF Some refl inrange True g sp' ki]
        show ?thesis by (simp only: eq)
      next
        case False
        have "get_cindex k n < 1" using lt False by (simp add: IS_TNODE_def)
        then have "get_cindex k n = 0" by (simp add: word_less_1)
        then have "unat (drop_bit (pos n) (k XOR key n)) = 0"
          unfolding get_cindex_def
          by (metis unat_ucast_32_64 unsigned_0)
        then have z: "drop_bit (pos n) (k XOR key n) = 0" by (simp only: unat_eq_zero)
        have nsp: "\<not> on_search_path k t (p @ [index])"
          using g False by (simp only: on_search_path_snoc) simp
        have eq: "fib_find_yesde_loop k pn p index = (Some (p @ [index]), p)"
          using Some inrange False by (subst fib_find_yesde_loop.simps) (simp add: Let_def)
        show ?thesis using eq nsp sp idx g z False by (simp add: IS_LEAF_def IS_TNODE_def)
      qed
    qed
  qed
qed


lemma all_below_get_child:
  "all_below P n \<Longrightarrow> get_child n i = Some c \<Longrightarrow> P c \<and> all_below P c"
proof -
  assume a: "all_below P n" and c: "get_child n i = Some c"
  from c have "Some c \<in> set (tyesde n)"
    by (metis get_child_def nth_mem option.distinct(1))
  with a show ?thesis
    by (subst (asm) all_below.simps) (auto simp: list_all_iff)
qed

lemma all_below_get_kv:
  "all_below P t \<Longrightarrow> get_kv t p = Some n \<Longrightarrow> p \<noteq> [] \<Longrightarrow> P n"
proof (induction p arbitrary: t)
  case Nil
  then show ?case by simp
next
  case (Cons i p)
  from Cons.prems(2) obtain c where c: "get_child t i = Some c" and n: "get_kv c p = Some n"
    by (auto split: option.splits)
  from all_below_get_child [OF Cons.prems(1) c] have pc: "P c" and ac: "all_below P c" by auto
  show ?case
  proof (cases "p = []")
    case True
    then show ?thesis using n pc by simp
  next
    case False
    then show ?thesis using Cons.IH [OF ac n] by simp
  qed
qed

text \<open>
  C9: \<^verbatim>\<open>fib_find_node\<close> returns a leaf only if its key is the searched key, so it returns
  NULL when no leaf has that key; and \<^verbatim>\<open>*tp\<close> is on the search path of the key and is its
  deepest node: the next step leaves the path (it meets NULL, a node that disagrees with
  the key, or the leaf returned).
\<close>

theorem fib_find_yesde_exact:
  assumes "leaves_at_pos0 t"
  shows "(case fib_find_yesde t k of
            (r, tp) \<Rightarrow> on_search_path k t tp \<and>
              \<not> on_search_path k t (tp @ [key_index k t tp]) \<and>
              (case r of
                 None \<Rightarrow> True
               | Some l \<Rightarrow> l = tp @ [key_index k t tp] \<and>
                   (\<exists>n. get_kv t l = Some n \<and> IS_LEAF n \<and> key n = k))) \<and>
         ((\<forall>p n. p \<noteq> [] \<and> get_kv t p = Some n \<and> IS_LEAF n \<longrightarrow> key n \<noteq> k) \<longrightarrow>
            fst (fib_find_yesde t k) = None)"
proof -
  have "get_kv t [] = Some t" by simp
  moreover have "on_search_path k t []" by (simp add: on_search_path_def)
  moreover have "0 = key_index k t []" by (simp add: key_index_def)
  ultimately have inv: "case fib_find_yesde_loop k t [] 0 of
           (r, tp) \<Rightarrow> on_search_path k t tp \<and> \<not> on_search_path k t (tp @ [key_index k t tp]) \<and>
             (case r of
                None \<Rightarrow> True
              | Some l \<Rightarrow> l = tp @ [key_index k t tp] \<and>
                  (\<exists>n. get_kv t l = Some n \<and> IS_LEAF n \<and> drop_bit (pos n) (k XOR key n) = 0))"
    by (rule find_loop_inv)
  obtain r tp where res: "fib_find_yesde_loop k t [] 0 = (r, tp)" by (cases "fib_find_yesde_loop k t [] 0")
  have leafkey: "key n = k"
    if "get_kv t l = Some n" "IS_LEAF n" "drop_bit (pos n) (k XOR key n) = 0" "l \<noteq> []" for l n
  proof -
    have "pos n = 0"
      using all_below_get_kv [OF assms [unfolded leaves_at_pos0_def] that(1) that(4)] that(2)
      by simp
    with that(3) have z: "k XOR key n = 0" by simp
    have "k = k XOR (key n XOR key n)" by simp
    also have "\<dots> = (k XOR key n) XOR key n" by (simp only: xor.assoc)
    also have "\<dots> = key n" using z by simp
    finally show ?thesis by simp
  qed
  have 1: "on_search_path k t tp \<and> \<not> on_search_path k t (tp @ [key_index k t tp])"
    using inv res by simp
  have 2: "l = tp @ [key_index k t tp] \<and> (\<exists>n. get_kv t l = Some n \<and> IS_LEAF n \<and> key n = k)"
    if "r = Some l" for l
  proof -
    from inv res that obtain n where l: "l = tp @ [key_index k t tp]"
      and n: "get_kv t l = Some n" "IS_LEAF n" "drop_bit (pos n) (k XOR key n) = 0"
      by auto
    from l have "l \<noteq> []" by simp
    with n leafkey have "key n = k" by blast
    with l n show ?thesis by blast
  qed
  have 3: "fst (fib_find_yesde t k) = None"
    if "\<forall>p n. p \<noteq> [] \<and> get_kv t p = Some n \<and> IS_LEAF n \<longrightarrow> key n \<noteq> k"
  proof (cases r)
    case None
    then show ?thesis using res by (simp add: fib_find_yesde_def)
  next
    case (Some l)
    from 2 [OF Some] that show ?thesis by auto
  qed
  show ?thesis
    unfolding fib_find_yesde_def res
    using 1 2 3 [unfolded fib_find_yesde_def res] by (cases r) auto
qed




lemma trie_10_built:
  "fib_table_insert 2 ext_ok 254 (route 0x0A000000 8) (trie_init, []) \<bind>
     (\<lambda>(e, s). fib_table_insert 3 ext_ok 254 (route 0x0A010000 16) s) = Some (0, (trie_10, []))"
  by code_simp

theorem fib_find_yesde_exact_witness:
  "leaves_at_pos0 trie_10 \<and>
   fib_find_yesde trie_10 0x0A010000 = (Some [0, 2], [0]) \<and>
   on_search_path 0x0A010000 trie_10 [0] \<and>
   fib_find_yesde trie_10 0x0A008000 = (None, [0]) \<and>
   fib_find_yesde trie_10 0x0A020000 = (None, [])"
proof -
  have 1: "leaves_at_pos0 trie_10" by code_simp
  have 2: "fib_find_yesde trie_10 0x0A010000 = (Some [0, 2], [0])" by code_simp
  have 3: "fib_find_yesde trie_10 0x0A008000 = (None, [0])" by code_simp
  have 4: "fib_find_yesde trie_10 0x0A020000 = (None, [])" by code_simp
  from fib_find_yesde_exact [OF 1, of "0x0A010000"] 2
  have "on_search_path 0x0A010000 trie_10 [0]" by simp
  with 1 2 3 4 show ?thesis by simp
qed


subsection \<open>Replacing a route\<close>

lemma get_child_set_tyesde:
  "get_child (set_tyesde ((tyesde n)[i := c]) n) j =
     (if j = i \<and> i < length (tyesde n) then c else get_child n j)"
  by (auto simp: get_child_def set_tyesde_def)

lemma at_path_get_kv:
  "get_kv t p = Some n \<Longrightarrow> f n = Some n' \<Longrightarrow>
   \<exists>t'. at_path p f t = Some t' \<and> get_kv t' p = Some n'"
proof (induction p arbitrary: t)
  case Nil
  then show ?case by simp
next
  case (Cons i p)
  from Cons.prems(1) obtain c where c: "get_child t i = Some c" and n: "get_kv c p = Some n"
    by (auto split: option.splits)
  from Cons.IH [OF n Cons.prems(2)] obtain c' where
    c': "at_path p f c = Some c'" "get_kv c' p = Some n'" by blast
  from c have "i < length (tyesde t)" by (auto simp: get_child_def split: if_splits)
  with c c' show ?case by (simp add: get_child_set_tyesde)
qed



subsection \<open>Pushing and pulling suffix lengths\<close>

lemma all_edges_get_child:
  "all_edges R n \<Longrightarrow> get_child n i = Some c \<Longrightarrow> R n c \<and> all_edges R c"
proof -
  assume a: "all_edges R n" and c: "get_child n i = Some c"
  from c have "Some c \<in> set (tyesde n)"
    by (metis get_child_def nth_mem option.distinct(1))
  with a show ?thesis
    by (subst (asm) all_edges.simps) (auto simp: list_all_iff)
qed

lemma all_edges_get_kv:
  "all_edges R t \<Longrightarrow> get_kv t p = Some n \<Longrightarrow> all_edges R n"
proof (induction p arbitrary: t)
  case Nil
  then show ?case by simp
next
  case (Cons i p)
  from Cons.prems(2) obtain c where c: "get_child t i = Some c" and n: "get_kv c p = Some n"
    by (auto split: option.splits)
  from all_edges_get_child [OF Cons.prems(1) c] Cons.IH n show ?case by blast
qed

lemma at_path_other:
  assumes f: "f n = Some n'" and ty: "tyesde n' = tyesde n"
  shows "get_kv t p = Some n \<Longrightarrow> at_path p f t = Some t' \<Longrightarrow>
     (case get_kv t q of
        None \<Rightarrow> get_kv t' q = None
      | Some m \<Rightarrow> (\<exists>m'. get_kv t' q = Some m' \<and>
           (if q = p then m' = n' else hdr m' = hdr m \<and> slen m' = slen m)))"
proof (induction p arbitrary: t t' q)
  case Nil
  then show ?case using f ty
    by (cases q) (auto simp: get_child_def split: option.splits)
next
  case (Cons i p)
  from Cons.prems(1) obtain c where c: "get_child t i = Some c" and n: "get_kv c p = Some n"
    by (auto split: option.splits)
  from Cons.prems(2) c obtain c' where c': "at_path p f c = Some c'"
    and t': "t' = set_tyesde ((tyesde t)[i := Some c']) t"
    by (auto split: option.splits)
  from c have il: "i < length (tyesde t)" by (auto simp: get_child_def split: if_splits)
  show ?case
  proof (cases q)
    case Nil
    then show ?thesis using t' by (simp add: hdr_def set_tyesde_def)
  next
    case (Cons j q')
    show ?thesis
    proof (cases "j = i")
      case True
      have gc: "get_child t' i = Some c'" using t' il by (simp add: get_child_set_tyesde)
      from Cons.IH [OF n c', of q'] show ?thesis
        using Cons True gc c by (auto split: option.splits)
    next
      case False
      have gc: "get_child t' j = get_child t j" using t' False by (simp add: get_child_set_tyesde)
      show ?thesis using Cons False gc by (auto split: option.splits)
    qed
  qed
qed


lemma frame_refl: "(\<And>q a. R q a a) \<Longrightarrow> frame t t R"
  by (auto simp: frame_def split: option.splits)

lemma frame_None: "frame t t' R \<Longrightarrow> get_kv t q = None \<Longrightarrow> get_kv t' q = None"
  unfolding frame_def by (drule spec [of _ q]) simp

lemma frame_Some:
  "frame t t' R \<Longrightarrow> get_kv t q = Some m \<Longrightarrow>
   \<exists>m'. get_kv t' q = Some m' \<and> hdr m' = hdr m \<and> R q (slen m) (slen m')"
  unfolding frame_def by (drule spec [of _ q]) simp

lemma frame_trans:
  assumes "frame t t1 R1" "frame t1 t' R2" "\<And>q a b c. R1 q a b \<Longrightarrow> R2 q b c \<Longrightarrow> R q a c"
  shows "frame t t' R"
  unfolding frame_def
proof
  fix q
  show "case get_kv t q of None \<Rightarrow> get_kv t' q = None
        | Some m \<Rightarrow> \<exists>m'. get_kv t' q = Some m' \<and> hdr m' = hdr m \<and> R q (slen m) (slen m')"
  proof (cases "get_kv t q")
    case None
    then have "get_kv t1 q = None" using assms(1) by (rule_tac frame_None)
    then have "get_kv t' q = None" using assms(2) by (rule_tac frame_None)
    then show ?thesis using None by simp
  next
    case (Some m)
    from frame_Some [OF assms(1) Some]
    obtain m1 where m1: "get_kv t1 q = Some m1" "hdr m1 = hdr m" "R1 q (slen m) (slen m1)"
      by blast
    from frame_Some [OF assms(2) m1(1)]
    obtain m' where m': "get_kv t' q = Some m'" "hdr m' = hdr m1" "R2 q (slen m1) (slen m')"
      by blast
    show ?thesis using Some m1 m' assms(3) by auto
  qed
qed

lemma frame_weaken:
  assumes "frame t t' R" "\<And>q a b. R q a b \<Longrightarrow> R' q a b"
  shows "frame t t' R'"
  unfolding frame_def
proof
  fix q
  show "case get_kv t q of None \<Rightarrow> get_kv t' q = None
        | Some m \<Rightarrow> \<exists>m'. get_kv t' q = Some m' \<and> hdr m' = hdr m \<and> R' q (slen m) (slen m')"
  proof (cases "get_kv t q")
    case None
    then show ?thesis using frame_None [OF assms(1)] by simp
  next
    case (Some m)
    from frame_Some [OF assms(1) Some] assms(2) show ?thesis using Some by auto
  qed
qed

lemma take_butlast_prefix:
  "take (length q) (butlast tn) = q \<Longrightarrow> take (length q) tn = q"
proof -
  assume h: "take (length q) (butlast tn) = q"
  have "length (take (length q) (butlast tn)) \<le> length (butlast tn)" by simp
  then have le: "length q \<le> length tn - 1" by (simp only: h length_butlast)
  show ?thesis
  proof (cases "length q < length tn")
    case True
    then show ?thesis using h by (simp add: take_butlast)
  next
    case False
    with le have "tn = []" by (cases tn) auto
    with h show ?thesis by simp
  qed
qed

lemma frame_set_slen:
  assumes n: "get_kv t tn = Some n" and a: "at_path tn (\<lambda>m. Some (set_slen v (g m))) t = Some t'"
    and g: "g n = n"
  shows "frame t t' (\<lambda>q a b. if q = tn then a = slen n \<and> b = v else b = a)"
  unfolding frame_def
proof
  fix q
  have f: "(\<lambda>m. Some (set_slen v (g m))) n = Some (set_slen v n)" using g by simp
  have ty: "tyesde (set_slen v n) = tyesde n" by (simp add: set_slen_def)
  from at_path_other [OF f ty n a, of q]
  show "case get_kv t q of None \<Rightarrow> get_kv t' q = None
        | Some m \<Rightarrow> \<exists>m'. get_kv t' q = Some m' \<and> hdr m' = hdr m \<and>
            (if q = tn then slen m = slen n \<and> slen m' = v else slen m' = slen m)"
    using n by (auto simp: hdr_def set_slen_def split: option.splits if_splits)
qed

lemma push_exact:
  "node_push_suffix t tn sl = Some t' \<Longrightarrow>
   frame t t' (\<lambda>q a b. b = (if take (length q) tn = q \<and> below_sl t tn sl q then sl else a))"
proof (induction t tn sl arbitrary: t' rule: node_push_suffix.induct)
  case (1 t tn sl)
  from "1.prems" obtain n where n: "get_kv t tn = Some n"
    by (subst (asm) node_push_suffix.simps) (auto split: option.splits)
  show ?case
  proof (cases "slen n < sl")
    case False
    then have tt: "t' = t" using "1.prems" n by (subst (asm) node_push_suffix.simps) simp
    have nb: "\<not> (take (length q) tn = q \<and> below_sl t tn sl q)" for q
    proof
      assume a: "take (length q) tn = q \<and> below_sl t tn sl q"
      then have "length (take (length q) tn) = length q" by simp
      then have "length q \<le> length tn" by simp
      with a have "\<exists>m. get_kv t (take (length tn) tn) = Some m \<and> slen m < sl"
        unfolding below_sl_def by blast
      with n False show False by simp
    qed
    show ?thesis unfolding tt by (rule frame_refl) (simp add: nb)
  next
    case True
    from "1.prems" n True obtain t1 where
      t1: "at_path tn (\<lambda>m. Some (set_slen sl m)) t = Some t1" and ne: "tn \<noteq> []"
      and rec: "node_push_suffix t1 (butlast tn) sl = Some t'"
      by (subst (asm) node_push_suffix.simps) (auto split: option.splits if_splits)
    have f1: "frame t t1 (\<lambda>q a b. if q = tn then a = slen n \<and> b = sl else b = a)"
      using frame_set_slen [OF n, of sl "\<lambda>m. m" t1] t1 by simp
    have f2: "frame t1 t' (\<lambda>q a b. b = (if take (length q) (butlast tn) = q \<and>
                below_sl t1 (butlast tn) sl q then sl else a))"
      using "1.IH" [OF n True t1 ne rec] .
    have same: "get_kv t1 p = Some m1 \<Longrightarrow> p \<noteq> tn \<Longrightarrow> \<exists>m. get_kv t p = Some m \<and> slen m = slen m1" for p m1
    proof -
      assume g: "get_kv t1 p = Some m1" and pn: "p \<noteq> tn"
      show ?thesis
      proof (cases "get_kv t p")
        case None
        from frame_None [OF f1 None] g show ?thesis by simp
      next
        case (Some m)
        from frame_Some [OF f1 Some] g pn show ?thesis using Some by auto
      qed
    qed
    have same': "get_kv t p = Some m \<Longrightarrow> p \<noteq> tn \<Longrightarrow> \<exists>m1. get_kv t1 p = Some m1 \<and> slen m1 = slen m" for p m
      using frame_Some [OF f1, of p m] by auto
    have bl: "below_sl t tn sl q \<longleftrightarrow> below_sl t1 (butlast tn) sl q" if ql: "length q < length tn" for q
    proof
      assume b: "below_sl t tn sl q"
      show "below_sl t1 (butlast tn) sl q"
        unfolding below_sl_def
      proof (intro allI impI)
        fix j assume j: "length q \<le> j \<and> j \<le> length (butlast tn)"
        then have jl: "j < length tn" using ne by (cases tn rule: rev_cases) auto
        then have tk: "take j (butlast tn) = take j tn" by (simp add: take_butlast)
        have "length (take j tn) = j" using jl by simp
        then have neq: "take j tn \<noteq> tn" using jl by auto
        from b j jl obtain m where m: "get_kv t (take j tn) = Some m" "slen m < sl"
          unfolding below_sl_def by (metis less_imp_le_nat)
        from same' [OF m(1) neq] m(2) tk
        show "\<exists>m. get_kv t1 (take j (butlast tn)) = Some m \<and> slen m < sl" by auto
      qed
    next
      assume b1: "below_sl t1 (butlast tn) sl q"
      show "below_sl t tn sl q"
        unfolding below_sl_def
      proof (intro allI impI)
        fix j assume j: "length q \<le> j \<and> j \<le> length tn"
        show "\<exists>m. get_kv t (take j tn) = Some m \<and> slen m < sl"
        proof (cases "j = length tn")
          case True
          then show ?thesis using n \<open>slen n < sl\<close> by simp
        next
          case False
          with j have jl: "j < length tn" by simp
          then have tk: "take j (butlast tn) = take j tn" by (simp add: take_butlast)
          have "length q \<le> j \<and> j \<le> length (butlast tn)" using j jl by simp
          from b1 [unfolded below_sl_def, rule_format, OF this]
          obtain m1 where m1: "get_kv t1 (take j tn) = Some m1" "slen m1 < sl"
            using tk by auto
          have "length (take j tn) = j" using jl by simp
          then have neq: "take j tn \<noteq> tn" using jl by auto
          from same [OF m1(1) neq] m1(2) show ?thesis by auto
        qed
      qed
    qed
    have bn: "below_sl t tn sl tn"
      unfolding below_sl_def using n True by auto
    show ?thesis
    proof (rule frame_trans [OF f1 f2])
      fix q :: "nat list" and a b c :: nat
      assume x: "if q = tn then a = slen n \<and> b = sl else b = a"
        and y: "c = (if take (length q) (butlast tn) = q \<and> below_sl t1 (butlast tn) sl q
                     then sl else b)"
      show "c = (if take (length q) tn = q \<and> below_sl t tn sl q then sl else a)"
      proof (cases "q = tn")
        case True
        then show ?thesis using x y bn by auto
      next
        case False
        show ?thesis
        proof (cases "take (length q) tn = q")
          case pre: True
          then have "length (take (length q) tn) = length q" by simp
          then have "length q \<le> length tn" by simp
          with pre False have ql: "length q < length tn" by (cases "length q = length tn") auto
          then have "take (length q) (butlast tn) = q" using pre by (simp add: take_butlast)
          then show ?thesis using x y False pre bl [OF ql] by simp
        next
          case npre: False
          then have "take (length q) (butlast tn) \<noteq> q" using take_butlast_prefix by blast
          then show ?thesis using x y False npre by simp
        qed
      qed
    qed
  qed
qed

lemma push_total:
  "get_kv t tn = Some n \<Longrightarrow> sl \<le> slen t \<Longrightarrow> \<exists>t'. node_push_suffix t tn sl = Some t'"
proof (induction t tn sl arbitrary: n rule: node_push_suffix.induct)
  case (1 t tn sl)
  note n = "1.prems"(1)
  show ?case
  proof (cases "slen n < sl")
    case False
    then show ?thesis using n by (subst node_push_suffix.simps) simp
  next
    case True
    from at_path_get_kv [OF n, of "\<lambda>m. Some (set_slen sl m)"]
    obtain t1 where t1: "at_path tn (\<lambda>m. Some (set_slen sl m)) t = Some t1" by auto
    have ne: "tn \<noteq> []" using n True "1.prems"(2) by auto
    have f1: "frame t t1 (\<lambda>q a b. if q = tn then a = slen n \<and> b = sl else b = a)"
      using frame_set_slen [OF n, of sl "\<lambda>m. m" t1] t1 by simp
    have "get_kv t (butlast tn @ [last tn]) = Some n" using n ne by simp
    then obtain m where m: "get_kv t (butlast tn) = Some m"
      by (auto simp: get_kv_snoc split: option.splits)
    from frame_Some [OF f1 m] obtain m' where m': "get_kv t1 (butlast tn) = Some m'" by auto
    have "get_kv t [] = Some t" by simp
    from frame_Some [OF f1 this] ne have r: "slen t1 = slen t" by auto
    from "1.IH" [OF n True t1 ne m'] r "1.prems"(2)
    obtain t' where "node_push_suffix t1 (butlast tn) sl = Some t'" by auto
    then show ?thesis using n True t1 ne by (subst node_push_suffix.simps) simp
  qed
qed


lemma update_suffix_loop_unfold:
  "i < unat (child_length tn) \<Longrightarrow> get_child tn i = Some c \<Longrightarrow> \<not> slen c \<le> sl \<Longrightarrow>
   update_suffix_loop tn smax i k sl =
     (if 64 \<le> k + (slen c - sl) then None
      else if smax \<le> slen c then Some (slen c)
      else update_suffix_loop tn smax
             (i div 2 ^ (k + (slen c - sl)) * 2 ^ (k + (slen c - sl)) + 2 ^ (k + (slen c - sl)))
             (k + (slen c - sl)) (slen c))"
  by (subst update_suffix_loop.simps) (simp only: if_True if_False option.case Let_def)

lemma update_suffix_loop_skip:
  "i < unat (child_length tn) \<Longrightarrow>
   get_child tn i = None \<or> (\<exists>c. get_child tn i = Some c \<and> slen c \<le> sl) \<Longrightarrow>
   update_suffix_loop tn smax i k sl = update_suffix_loop tn smax (i + 2 ^ k) k sl"
  by (subst update_suffix_loop.simps) auto

lemma update_suffix_loop_end:
  "\<not> i < unat (child_length tn) \<Longrightarrow> update_suffix_loop tn smax i k sl = Some sl"
  by (subst update_suffix_loop.simps) simp

lemma update_suffix_loop_result:
  "update_suffix_loop tn smax i k sl = Some r \<Longrightarrow>
   r = sl \<or> (\<exists>j c. get_child tn j = Some c \<and> slen c = r)"
proof (induction tn smax i k sl rule: update_suffix_loop.induct)
  case (1 tn smax i k sl)
  show ?case
  proof (cases "i < unat (child_length tn)")
    case False
    then show ?thesis using "1.prems" by (simp add: update_suffix_loop_end)
  next
    case True
    note ilt = this
    show ?thesis
    proof (cases "get_child tn i")
      case None
      then have "update_suffix_loop tn smax (i + 2 ^ k) k sl = Some r"
        using "1.prems" ilt by (simp add: update_suffix_loop_skip)
      from "1.IH"(1) [OF ilt None this] show ?thesis .
    next
      case (Some c)
      show ?thesis
      proof (cases "slen c \<le> sl")
        case True
        then have "update_suffix_loop tn smax (i + 2 ^ k) k sl = Some r"
          using "1.prems" ilt Some by (simp add: update_suffix_loop_skip)
        from "1.IH"(2) [OF ilt Some True this] show ?thesis .
      next
        case False
        note step = "1.prems" [unfolded update_suffix_loop_unfold [OF ilt Some False]]
        show ?thesis
        proof (cases "smax \<le> slen c")
          case True
          then have "r = slen c" using step by (auto split: if_splits)
          then show ?thesis using Some by blast
        next
          case smf: False
          then have k64: "\<not> 64 \<le> k + (slen c - sl)"
            and rec: "update_suffix_loop tn smax
             (i div 2 ^ (k + (slen c - sl)) * 2 ^ (k + (slen c - sl)) + 2 ^ (k + (slen c - sl)))
             (k + (slen c - sl)) (slen c) = Some r"
            using step by (auto split: if_splits)
          from "1.IH"(3) [OF ilt Some False refl refl refl k64 smf rec]
          show ?thesis using Some by blast
        qed
      qed
    qed
  qed
qed

lemma update_suffix_loop_total:
  assumes ch: "\<And>j c. get_child tn j = Some c \<Longrightarrow> slen c \<le> B"
  shows "sl \<le> B \<Longrightarrow> k + (B - sl) < 64 \<Longrightarrow> \<exists>r. update_suffix_loop tn smax i k sl = Some r"
  using ch
proof (induction tn smax i k sl rule: update_suffix_loop.induct)
  case (1 tn smax i k sl)
  note slB = "1.prems"(1) and kB = "1.prems"(2) and ch1 = "1.prems"(3)
  show ?case
  proof (cases "i < unat (child_length tn)")
    case False
    then show ?thesis by (simp add: update_suffix_loop_end)
  next
    case True
    note ilt = this
    show ?thesis
    proof (cases "get_child tn i")
      case None
      from "1.IH"(1) [OF ilt None slB kB ch1]
      show ?thesis using ilt None by (simp add: update_suffix_loop_skip)
    next
      case (Some c)
      show ?thesis
      proof (cases "slen c \<le> sl")
        case True
        from "1.IH"(2) [OF ilt Some True slB kB ch1]
        show ?thesis using ilt Some True by (simp add: update_suffix_loop_skip)
      next
        case False
        have cB: "slen c \<le> B" using ch1 Some by blast
        have k64: "\<not> 64 \<le> k + (slen c - sl)" using kB cB False by simp
        show ?thesis
        proof (cases "smax \<le> slen c")
          case True
          then show ?thesis using k64
            by (simp add: update_suffix_loop_unfold [OF ilt Some False])
        next
          case smf: False
          have kk: "k + (slen c - sl) + (B - slen c) < 64" using kB cB False by simp
          from "1.IH"(3) [OF ilt Some False refl refl refl k64 smf cB kk ch1]
          show ?thesis using k64 smf
            by (simp add: update_suffix_loop_unfold [OF ilt Some False])
        qed
      qed
    qed
  qed
qed


lemma update_suffix_result:
  assumes ch: "\<And>i c. get_child n i = Some c \<Longrightarrow> slen c \<le> slen n"
    and le: "slen n \<le> KEYLENGTH" and st: "pos n < slen n"
  shows "\<exists>r. update_suffix n = Some (r, set_slen r n) \<and> r \<le> slen n"
proof -
  let ?smax = "min (nat ((int (pos n) + int (bits n) - 1) mod 256)) (slen n)"
  have "pos n \<le> slen n" using st by simp
  moreover have "1 + (slen n - pos n) < 64" using le by (simp add: KEYLENGTH_def)
  ultimately obtain r where r: "update_suffix_loop n ?smax 0 1 (pos n) = Some r"
    using update_suffix_loop_total [of n "slen n" "pos n" 1 ?smax 0] ch by blast
  from update_suffix_loop_result [OF r] ch st have "r \<le> slen n" by auto
  with r show ?thesis by (simp add: update_suffix_def Let_def)
qed

lemma pull_frame_total:
  "path_slen_ok t tn \<Longrightarrow>
   \<exists>t'. node_pull_suffix t tn sl = Some t' \<and>
        frame t t' (\<lambda>q a b. b \<le> a \<and> (b = a \<or> take (length q) tn = q))"
proof (induction t tn sl rule: node_pull_suffix.induct)
  case (1 t tn sl)
  note ok = "1.prems"
  from ok obtain n where n: "get_kv t tn = Some n" and nle: "slen n \<le> KEYLENGTH"
    and nch: "\<And>i c. get_child n i = Some c \<Longrightarrow> slen c \<le> slen n"
    unfolding path_slen_ok_def by (metis order_refl take_all)
  show ?case
  proof (cases "slen n > pos n \<and> slen n > sl")
    case False
    then have "node_pull_suffix t tn sl = Some t"
      using n by (subst node_pull_suffix.simps) auto
    then show ?thesis by (simp add: frame_refl)
  next
    case True
    then have st: "pos n < slen n" by simp
    have "\<exists>r. update_suffix n = Some (r, set_slen r n) \<and> r \<le> slen n"
      by (rule update_suffix_result) (use nch nle st in auto)
    then obtain r where r: "update_suffix n = Some (r, set_slen r n)" "r \<le> slen n" by blast
    from at_path_get_kv [OF n, of "\<lambda>_. Some (set_slen r n)"]
    obtain t1 where t1: "at_path tn (\<lambda>_. Some (set_slen r n)) t = Some t1" by auto
    have f1: "frame t t1 (\<lambda>q a b. if q = tn then a = slen n \<and> b = r else b = a)"
      using frame_set_slen [OF n, of r "\<lambda>_. n" t1] t1 by simp
    have f1': "frame t t1 (\<lambda>q a b. b \<le> a \<and> (b = a \<or> take (length q) tn = q))"
      by (rule frame_weaken [OF f1]) (use r(2) in \<open>auto split: if_splits\<close>)
    show ?thesis
    proof (cases "slen n = r")
      case True
      then have "node_pull_suffix t tn sl = Some t1"
        using n \<open>pos n < slen n \<and> sl < slen n\<close> r(1) t1 by (subst node_pull_suffix.simps) simp
      then show ?thesis using f1' by simp
    next
      case False
      have ne: "tn \<noteq> []"
      proof
        assume "tn = []"
        then have "n = t" using n by simp
        then show False using ok st by (simp add: path_slen_ok_def)
      qed
      have ok1: "path_slen_ok t1 (butlast tn)"
        unfolding path_slen_ok_def
      proof (intro conjI allI impI)
        have "get_kv t [] = Some t" by simp
        from frame_Some [OF f1 this] ne have "hdr t1 = hdr t" "slen t1 = slen t" by auto
        then show "slen t1 \<le> pos t1" using ok by (simp add: path_slen_ok_def hdr_def)
      next
        fix j assume j: "j \<le> length (butlast tn)"
        then have jl: "j < length tn" using ne by (cases tn rule: rev_cases) auto
        then have tk: "take j (butlast tn) = take j tn" by (simp add: take_butlast)
        have "length (take j tn) = j" using jl by simp
        then have neq: "take j tn \<noteq> tn" using jl by auto
        from ok jl obtain m where m: "get_kv t (take j tn) = Some m" "slen m \<le> KEYLENGTH"
          and mch: "\<And>i c. get_child m i = Some c \<Longrightarrow> slen c \<le> slen m"
          unfolding path_slen_ok_def by (metis less_imp_le_nat)
        from frame_Some [OF f1 m(1)] neq obtain m1 where
          m1: "get_kv t1 (take j tn) = Some m1" "hdr m1 = hdr m" "slen m1 = slen m" by auto
        have "slen c1 \<le> slen m1" if c1: "get_child m1 i = Some c1" for i c1
        proof -
          have g1: "get_kv t1 (take j tn @ [i]) = Some c1" using m1(1) c1 by (simp add: get_kv_snoc)
          show ?thesis
          proof (cases "get_kv t (take j tn @ [i])")
            case None
            from frame_None [OF f1 None] g1 show ?thesis by simp
          next
            case (Some c)
            then have gc: "get_child m i = Some c" using m(1) by (simp add: get_kv_snoc)
            from frame_Some [OF f1 Some] g1
            have "if take j tn @ [i] = tn then slen c = slen n \<and> slen c1 = r else slen c1 = slen c"
              by auto
            then have "slen c1 \<le> slen c" using r(2) by (auto split: if_splits)
            with mch [OF gc] m1(3) show ?thesis by simp
          qed
        qed
        with m1 m(2) tk
        show "\<exists>m. get_kv t1 (take j (butlast tn)) = Some m \<and> slen m \<le> KEYLENGTH \<and>
                (\<forall>i c. get_child m i = Some c \<longrightarrow> slen c \<le> slen m)"
          by auto
      qed
      from "1.IH" [OF n True r(1) refl t1 False ne ok1]
      obtain t' where t': "node_pull_suffix t1 (butlast tn) r = Some t'"
        and f2: "frame t1 t' (\<lambda>q a b. b \<le> a \<and> (b = a \<or> take (length q) (butlast tn) = q))"
        by blast
      have "node_pull_suffix t tn sl = Some t'"
        using n \<open>pos n < slen n \<and> sl < slen n\<close> r(1) t1 False ne t'
        by (subst node_pull_suffix.simps) simp
      moreover have "frame t t' (\<lambda>q a b. b \<le> a \<and> (b = a \<or> take (length q) tn = q))"
        by (rule frame_trans [OF f1' f2]) (use take_butlast_prefix in auto)
      ultimately show ?thesis by blast
    qed
  qed
qed


lemma pull_changes_path:
  "node_pull_suffix t tn sl = Some t' \<Longrightarrow>
   frame t t' (\<lambda>q a b. b = a \<or> (take (length q) tn = q))"
proof (induction t tn sl arbitrary: t' rule: node_pull_suffix.induct)
  case (1 t tn sl)
  from "1.prems" obtain n where n: "get_kv t tn = Some n"
    by (subst (asm) node_pull_suffix.simps) (auto split: option.splits)
  show ?case
  proof (cases "slen n > pos n \<and> slen n > sl")
    case False
    then have "t' = t" using "1.prems" n by (subst (asm) node_pull_suffix.simps) auto
    then show ?thesis by (simp add: frame_refl)
  next
    case True
    from "1.prems" n True obtain r n1 t1 where r: "update_suffix n = Some (r, n1)"
      and t1: "at_path tn (\<lambda>_. Some n1) t = Some t1"
      and rest: "if slen n = r then t' = t1
                 else tn \<noteq> [] \<and> node_pull_suffix t1 (butlast tn) r = Some t'"
      by (subst (asm) node_pull_suffix.simps) (auto split: option.splits if_splits)
    from r have n1: "n1 = set_slen r n"
      by (auto simp: update_suffix_def Let_def split: option.splits)
    have f1: "frame t t1 (\<lambda>q a b. if q = tn then a = slen n \<and> b = r else b = a)"
      using frame_set_slen [OF n, of r "\<lambda>_. n" t1] t1 n1 by simp
    have f1': "frame t t1 (\<lambda>q a b. b = a \<or> (take (length q) tn = q))"
      by (rule frame_weaken [OF f1]) (auto split: if_splits)
    show ?thesis
    proof (cases "slen n = r")
      case True
      then show ?thesis using rest f1' by simp
    next
      case False
      then have ne: "tn \<noteq> []" and rec: "node_pull_suffix t1 (butlast tn) r = Some t'"
        using rest by simp_all
      from "1.IH" [OF n True r refl t1 False ne rec]
      have f2: "frame t1 t' (\<lambda>q a b. b = a \<or> (take (length q) (butlast tn) = q))" .
      show ?thesis
        by (rule frame_trans [OF f1' f2]) (use take_butlast_prefix in auto)
    qed
  qed
qed

lemma pull_sets_slen:
  assumes n: "get_kv t tn = Some n"
    and st: "slen n > pos n \<and> slen n > sl" and t': "node_pull_suffix t tn sl = Some t'"
  shows "\<exists>r n'. update_suffix n = Some (r, set_slen r n) \<and> get_kv t' tn = Some n' \<and> slen n' = r"
proof -
  from t' n st obtain r n1 t1 where r: "update_suffix n = Some (r, n1)"
    and t1: "at_path tn (\<lambda>_. Some n1) t = Some t1"
    and rest: "if slen n = r then t' = t1
               else tn \<noteq> [] \<and> node_pull_suffix t1 (butlast tn) r = Some t'"
    by (subst (asm) node_pull_suffix.simps) (auto split: option.splits if_splits)
  from r have n1: "n1 = set_slen r n"
    by (auto simp: update_suffix_def Let_def split: option.splits)
  have f1: "frame t t1 (\<lambda>q a b. if q = tn then a = slen n \<and> b = r else b = a)"
    using frame_set_slen [OF n, of r "\<lambda>_. n" t1] t1 n1 by simp
  from frame_Some [OF f1 n] obtain m1 where m1: "get_kv t1 tn = Some m1" "slen m1 = r" by auto
  show ?thesis
  proof (cases "slen n = r")
    case True
    then show ?thesis using rest r n1 m1 by auto
  next
    case False
    then have ne: "tn \<noteq> []" and rec: "node_pull_suffix t1 (butlast tn) r = Some t'"
      using rest by simp_all
    have "length (butlast tn) < length tn" using ne by simp
    then have np: "take (length tn) (butlast tn) \<noteq> tn" by (metis length_take min.strict_order_iff min_less_iff_conj nat_neq_iff)
    from frame_Some [OF pull_changes_path [OF rec] m1(1)] np
    obtain m' where "get_kv t' tn = Some m'" "slen m' = slen m1" by auto
    then show ?thesis using r n1 m1 by auto
  qed
qed

lemma get_kv_prefix:
  "get_kv t tn = Some n \<Longrightarrow> \<exists>m. get_kv t (take j tn) = Some m"
proof -
  assume "get_kv t tn = Some n"
  then have "get_kv t (take j tn @ drop j tn) = Some n" by simp
  then show ?thesis by (simp only: get_kv_append split: option.splits) auto
qed

lemma edges_slen_le:
  "all_edges (\<lambda>n c. slen c \<le> slen n) t \<Longrightarrow> get_kv t p = Some m \<Longrightarrow> slen m \<le> slen t"
proof (induction p arbitrary: t)
  case Nil
  then show ?case by simp
next
  case (Cons i p)
  from Cons.prems(2) obtain c where c: "get_child t i = Some c" and m: "get_kv c p = Some m"
    by (auto split: option.splits)
  from all_edges_get_child [OF Cons.prems(1) c] Cons.IH [OF _ m] show ?case by fastforce
qed

lemma slen_ok_path:
  assumes ok: "slen_ok t" and p: "pos t = KEYLENGTH" and n: "get_kv t tn = Some n"
  shows "path_slen_ok t tn"
  unfolding path_slen_ok_def
proof (intro conjI allI impI)
  show "slen t \<le> pos t" using ok p by (simp add: slen_ok_def)
next
  fix j assume "j \<le> length tn"
  from get_kv_prefix [OF n, of j] obtain m where m: "get_kv t (take j tn) = Some m" by blast
  have e: "all_edges (\<lambda>n c. slen c \<le> slen n) t" using ok by (simp add: slen_ok_def)
  have 1: "slen m \<le> KEYLENGTH" using edges_slen_le [OF e m] ok by (simp add: slen_ok_def)
  have 2: "slen c \<le> slen m" if "get_child m i = Some c" for i c
    using all_edges_get_child [OF all_edges_get_kv [OF e m] that] by simp
  from m 1 2 show "\<exists>m. get_kv t (take j tn) = Some m \<and> slen m \<le> KEYLENGTH \<and>
       (\<forall>i c. get_child m i = Some c \<longrightarrow> slen c \<le> slen m)" by blast
qed

lemma all_slots_child:
  "all_slots R n \<Longrightarrow> get_child n i = Some c \<Longrightarrow> R n i c \<and> all_slots R c"
proof -
  assume a: "all_slots R n" and c: "get_child n i = Some c"
  from c have "i < length (tyesde n)" by (auto simp: get_child_def split: if_splits)
  moreover from a have "\<forall>i\<in>{0..<length (tyesde n)}.
      case get_child n i of None \<Rightarrow> True | Some m \<Rightarrow> R n i m \<and> all_slots R m"
    by (subst (asm) all_slots.simps) (simp add: list_all_iff)
  ultimately have "case get_child n i of None \<Rightarrow> True | Some m \<Rightarrow> R n i m \<and> all_slots R m"
    by simp
  with c show ?thesis by simp
qed

lemma all_slots_kv: "all_slots R t \<Longrightarrow> get_kv t p = Some n \<Longrightarrow> all_slots R n"
  by (induction p arbitrary: t) (auto split: option.splits dest: all_slots_child)

lemma tnode_depth:
  "all_slots key_edge t \<Longrightarrow> get_kv t p = Some m \<Longrightarrow> IS_TNODE m \<Longrightarrow> length p + pos m + bits m
     \<le> pos t + (if p = [] then bits t else 1)"
proof (induction p arbitrary: t)
  case Nil
  then show ?case by simp
next
  case (Cons i p)
  from Cons.prems(2) obtain c where c: "get_child t i = Some c" and m: "get_kv c p = Some m"
    by (auto split: option.splits)
  from all_slots_child [OF Cons.prems(1) c]
  have e: "key_edge t i c" and a: "all_slots key_edge c" by simp_all
  from e have le: "pos c + bits c \<le> pos t" and sh: "node_shape c" by (simp_all add: key_edge_def)
  show ?case
  proof (cases p)
    case Nil
    then have "m = c" using m by simp
    then show ?thesis using le Nil Cons.prems(3) by (simp add: IS_TNODE_def)
  next
    case (Cons j p')
    with m have "get_child c j \<noteq> None" by (auto split: option.splits)
    then have "tyesde c \<noteq> []" by (auto simp: get_child_def)
    with sh have "bits c \<noteq> 0" by (auto simp: node_shape_def split: if_splits)
    moreover from Cons.IH [OF a m Cons.prems(3)] Cons have "length p + pos m + bits m \<le> pos c + 1" by simp
    ultimately show ?thesis using le by simp
  qed
qed

text \<open>
  C8. In a trie whose root has \<open>slen = pos = KEYLENGTH\<close>, for a pointer \<open>tn\<close> to a node
  \<open>n\<close>. \<^verbatim>\<open>node_push_suffix\<close> with a value \<open>sl \<le> KEYLENGTH\<close> returns, changes nothing but
  \<open>slen\<close>, and the new \<open>slen\<close> of a node is \<open>sl\<close> exactly when the node is \<open>tn\<close> or an
  ancestor of \<open>tn\<close> and every node from it down to \<open>tn\<close> had \<open>slen < sl\<close>; every other
  \<open>slen\<close> is the old one. So no \<open>slen\<close> decreases, and the walk stops at the first ancestor
  whose \<open>slen\<close> is not smaller than \<open>sl\<close>. When no child on the way from the root to \<open>tn\<close>
  has a larger \<open>slen\<close> than its parent (\<open>path_slen_ok\<close>), \<^verbatim>\<open>node_pull_suffix\<close> returns,
  changes nothing but \<open>slen\<close> of \<open>tn\<close> and of ancestors of \<open>tn\<close>, and never to a larger
  value; when the \<open>slen\<close> of \<open>n\<close> is stale (larger than \<open>pos n\<close> and than \<open>sl\<close>) the new
  \<open>slen\<close> of \<open>n\<close> is the value that \<^verbatim>\<open>update_suffix\<close> computes from the children of \<open>n\<close>,
  and otherwise the trie is left as it is. Both walks go from a node to its parent in
  every turn, and in a trie with \<open>key_structure\<close> an internal node \<open>n\<close> at depth
  \<open>length tn\<close> has \<open>length tn + pos n + bits n \<le> KEYLENGTH + 1\<close>: it is at most
  \<open>KEYLENGTH\<close> levels below the root.
\<close>

theorem suffix_maintenance_monotone:
  assumes rs: "slen t = KEYLENGTH" and rp: "pos t = KEYLENGTH" and n: "get_kv t tn = Some n"
  shows "(sl \<le> KEYLENGTH \<longrightarrow>
            (\<exists>t'. node_push_suffix t tn sl = Some t' \<and>
               frame t t' (\<lambda>q a b. b = (if take (length q) tn = q \<and> below_sl t tn sl q
                                         then sl else a)))) \<and>
         (path_slen_ok t tn \<longrightarrow>
            (\<exists>t'. node_pull_suffix t tn sl = Some t' \<and>
               frame t t' (\<lambda>q a b. b \<le> a \<and> (b = a \<or> take (length q) tn = q)) \<and>
               (if slen n > pos n \<and> slen n > sl
                then \<exists>r n'. update_suffix n = Some (r, set_slen r n) \<and>
                            get_kv t' tn = Some n' \<and> slen n' = r
                else t' = t))) \<and>
         (key_structure t \<longrightarrow> IS_TNODE n \<longrightarrow> length tn + pos n + bits n \<le> Suc KEYLENGTH)"
proof (intro conjI impI)
  assume "sl \<le> KEYLENGTH"
  then have "sl \<le> slen t" using rs by simp
  from push_total [OF n this] obtain t' where t': "node_push_suffix t tn sl = Some t'" by blast
  from push_exact [OF t'] t'
  show "\<exists>t'. node_push_suffix t tn sl = Some t' \<and>
          frame t t' (\<lambda>q a b. b = (if take (length q) tn = q \<and> below_sl t tn sl q
                                    then sl else a))"
    by blast
next
  assume ok: "path_slen_ok t tn"
  from pull_frame_total [OF ok, of sl] obtain t' where
    t': "node_pull_suffix t tn sl = Some t'"
    and f: "frame t t' (\<lambda>q a b. b \<le> a \<and> (b = a \<or> take (length q) tn = q))" by blast
  have "if slen n > pos n \<and> slen n > sl
        then \<exists>r n'. update_suffix n = Some (r, set_slen r n) \<and>
                    get_kv t' tn = Some n' \<and> slen n' = r
        else t' = t"
  proof (cases "slen n > pos n \<and> slen n > sl")
    case True
    from pull_sets_slen [OF n True t'] True show ?thesis by simp
  next
    case False
    then have "node_pull_suffix t tn sl = Some t"
      using n by (subst node_pull_suffix.simps) auto
    with t' have "t' = t" by simp
    with False show ?thesis by (simp only: if_False)
  qed
  with t' f
  show "\<exists>t'. node_pull_suffix t tn sl = Some t' \<and>
          frame t t' (\<lambda>q a b. b \<le> a \<and> (b = a \<or> take (length q) tn = q)) \<and>
          (if slen n > pos n \<and> slen n > sl
           then \<exists>r n'. update_suffix n = Some (r, set_slen r n) \<and>
                       get_kv t' tn = Some n' \<and> slen n' = r
           else t' = t)"
    by blast
next
  assume ks: "key_structure t" and tn: "IS_TNODE n"
  then have a: "all_slots key_edge t" and b: "bits t = 0" by (simp_all add: key_structure_def)
  from tnode_depth [OF a n tn] b rp show "length tn + pos n + bits n \<le> Suc KEYLENGTH"
    by (simp split: if_splits)
qed

theorem suffix_maintenance_monotone_witness:
  "(\<exists>t'. node_push_suffix trie_10 [0] 28 = Some t' \<and>
      frame trie_10 t' (\<lambda>q a b. b = (if take (length q) [0] = q \<and> below_sl trie_10 [0] 28 q
                                      then 28 else a)) \<and>
      map_option slen (get_kv trie_10 [0]) = Some 24 \<and>
      map_option slen (get_kv t' [0]) = Some 28) \<and>
   (\<exists>t'. node_pull_suffix stale_10 [0] 0 = Some t' \<and>
      frame stale_10 t' (\<lambda>q a b. b \<le> a \<and> (b = a \<or> take (length q) [0] = q)) \<and>
      map_option slen (get_kv stale_10 [0]) = Some 24 \<and>
      map_option slen (get_kv t' [0]) = Some 16) \<and>
   key_structure trie_10 \<and> length [0::nat] + 15 + 2 \<le> Suc KEYLENGTH"
proof -
  have r: "slen trie_10 = KEYLENGTH" "pos trie_10 = KEYLENGTH"
    "slen stale_10 = KEYLENGTH" "pos stale_10 = KEYLENGTH" by code_simp+
  have ks: "key_structure trie_10" by code_simp
  have ok: "slen_ok stale_10" by code_simp
  have "map_option (\<lambda>n. (slen n, pos n, bits n)) (get_kv trie_10 [0]) = Some (24, 15, 2)"
    by code_simp
  then obtain n where n: "get_kv trie_10 [0] = Some n" "slen n = 24" "pos n = 15" "bits n = 2"
    by auto
  have "map_option (\<lambda>n. (slen n, pos n, map_option fst (update_suffix n))) (get_kv stale_10 [0]) =
          Some (24, 15, Some 16)"
    by code_simp
  then obtain m where m: "get_kv stale_10 [0] = Some m" "slen m = 24" "pos m = 15"
    "map_option fst (update_suffix m) = Some 16"
    by auto
  have pk: "path_slen_ok stale_10 [0]" by (rule slen_ok_path [OF ok r(4) m(1)])
  have "map_option slen (Option.bind (node_push_suffix trie_10 [0] 28) (\<lambda>t'. get_kv t' [0])) = Some 28"
    by code_simp
  then have pv: "node_push_suffix trie_10 [0] 28 = Some t' \<Longrightarrow> map_option slen (get_kv t' [0]) = Some 28"
    for t' by simp
  from suffix_maintenance_monotone [OF r(1) r(2) n(1), of 28] n ks pv
  have A: "\<exists>t'. node_push_suffix trie_10 [0] 28 = Some t' \<and>
      frame trie_10 t' (\<lambda>q a b. b = (if take (length q) [0] = q \<and> below_sl trie_10 [0] 28 q
                                      then 28 else a)) \<and>
      map_option slen (get_kv trie_10 [0]) = Some 24 \<and>
      map_option slen (get_kv t' [0]) = Some 28"
    and C: "length [0::nat] + 15 + 2 \<le> Suc KEYLENGTH"
    by (auto simp: KEYLENGTH_def IS_TNODE_def)
  from suffix_maintenance_monotone [OF r(3) r(4) m(1), of 0] pk m
  have B: "\<exists>t'. node_pull_suffix stale_10 [0] 0 = Some t' \<and>
      frame stale_10 t' (\<lambda>q a b. b \<le> a \<and> (b = a \<or> take (length q) [0] = q)) \<and>
      map_option slen (get_kv stale_10 [0]) = Some 24 \<and>
      map_option slen (get_kv t' [0]) = Some 16"
    by auto
  from A B C ks show ?thesis by blast
qed



subsection \<open>What resize leaves behind\<close>











lemma inflate_parent: "inflate rs s old = Some (Some tp', s') \<Longrightarrow> tp' = butlast old"
  by (auto simp: inflate_def replace_def Let_def split: option.splits prod.splits if_splits)










subsection \<open>Walking the leaves in key order\<close>

text \<open>
  The leaves at or below \<open>n\<close> with their pointers, slot by slot (\<open>p\<close> is the pointer of
  \<open>n\<close>); the leaves in the slots from \<open>c\<close> on; and the leaves that follow the node at
  pointer \<open>p\<close> in this order.
\<close>

function leaves_below :: "key_vector \<Rightarrow> nat list \<Rightarrow> (nat list \<times> key_vector) list" where
  "leaves_below n p =
     concat (map (\<lambda>i. case get_child n i of
                         None \<Rightarrow> []
                       | Some c \<Rightarrow> if IS_LEAF c then [(p @ [i], c)] else leaves_below c (p @ [i]))
               [0..<length (tyesde n)])"
  by pat_completeness auto
termination
  by (relation "measure (\<lambda>(n, p). size n)") (auto simp: size_get_child)

declare leaves_below.simps [simp del]

definition slot_leaves :: "key_vector \<Rightarrow> nat list \<Rightarrow> nat \<Rightarrow> (nat list \<times> key_vector) list" where
  "slot_leaves n p i =
     (case get_child n i of
        None \<Rightarrow> []
      | Some c \<Rightarrow> if IS_LEAF c then [(p @ [i], c)] else leaves_below c (p @ [i]))"

definition from_slot :: "key_vector \<Rightarrow> nat list \<Rightarrow> nat \<Rightarrow> (nat list \<times> key_vector) list" where
  "from_slot n p c = concat (map (slot_leaves n p) [c..<length (tyesde n)])"

fun after_r :: "key_vector \<Rightarrow> nat list \<Rightarrow> (nat list \<times> key_vector) list" where
  "after_r t [] = []"
| "after_r t (i # rq) =
     (case get_kv t (rev rq) of None \<Rightarrow> [] | Some n \<Rightarrow> from_slot n (rev rq) (Suc i)) @ after_r t rq"

definition leaves_after :: "key_vector \<Rightarrow> nat list \<Rightarrow> (nat list \<times> key_vector) list" where
  "leaves_after t p = after_r t (rev p)"


lemma leaves_below_from_slot: "leaves_below n p = from_slot n p 0"
  by (subst leaves_below.simps) (simp add: from_slot_def slot_leaves_def cong: map_cong)

lemma from_slot_step:
  "c < length (tyesde n) \<Longrightarrow> from_slot n p c = slot_leaves n p c @ from_slot n p (Suc c)"
  by (simp add: from_slot_def upt_conv_Cons)

lemma from_slot_end: "length (tyesde n) \<le> c \<Longrightarrow> from_slot n p c = []"
  by (simp add: from_slot_def)

lemma leaves_after_snoc:
  "leaves_after t (q @ [i]) =
     (case get_kv t q of None \<Rightarrow> [] | Some n \<Rightarrow> from_slot n q (Suc i)) @ leaves_after t q"
  by (simp add: leaves_after_def split: option.splits)

lemma leaves_after_root: "leaves_after t [] = []"
  by (simp add: leaves_after_def)

lemma ks_edge:
  assumes "key_structure t" "get_kv t q = Some n" "get_child n i = Some c"
  shows "unat (get_index (key c) n) = i \<and> pos c + bits c \<le> pos n \<and> node_shape c"
  using assms all_slots_child [OF all_slots_kv [of _ t q n], of key_edge i c]
  by (auto simp: key_structure_def key_edge_def)

lemma ks_nonroot:
  assumes ks: "key_structure t" and n: "get_kv t p = Some n" and p: "p \<noteq> []"
  shows "node_shape n \<and> \<not> IS_TRIE n \<and> bits n \<le> 32"
proof -
  from p obtain q i where pq: "p = q @ [i]" by (cases p rule: rev_cases) auto
  with n obtain m where m: "get_kv t q = Some m" "get_child m i = Some n"
    by (auto simp: get_kv_snoc split: option.splits)
  from ks_edge [OF ks m] have sh: "node_shape n" by simp
  then show ?thesis by (auto simp: node_shape_def IS_TRIE_def KEYLENGTH_def split: if_splits)
qed

lemma word_of_nat_unat_64: "c \<le> 2 ^ 32 \<Longrightarrow> unat (of_nat c :: ulong) = c"
proof -
  assume "c \<le> 2 ^ 32"
  then have "c < 2 ^ 64" by simp
  moreover have "unat (word_of_nat c :: ulong) = c mod 2 ^ LENGTH(64)" by (rule unat_of_nat)
  ultimately show ?thesis by simp
qed

lemma of_nat_unat_64: "of_nat (unat w) = (w::ulong)"
proof -
  have "unat w < 2 ^ 64" using unsigned_less [of w, where 'a=nat] by simp
  moreover have "unat (word_of_nat (unat w) :: ulong) = unat w mod 2 ^ LENGTH(64)"
    by (rule unat_of_nat)
  ultimately have "unat (word_of_nat (unat w) :: ulong) = unat w" by simp
  then show ?thesis by (simp only: word_unat_eq_iff)
qed

lemma push_bit_1_unat: "b \<le> 32 \<Longrightarrow> unat (push_bit b 1 :: ulong) = 2 ^ b"
  by (simp add: push_bit_eq_mult unat_pow64)

lemma walk_climb:
  assumes ks: "key_structure t" and q: "get_kv t q = Some n" and c: "get_child n i = Some m"
    and ge: "push_bit (bits m) 1 \<le> ci"
  shows "leaf_walk_next t (q @ [i]) ci = leaf_walk_next t q (of_nat (Suc i))"
proof -
  have m: "get_kv t (q @ [i]) = Some m" using q c by (simp add: get_kv_snoc)
  from ks_nonroot [OF ks m] have nt: "\<not> IS_TRIE m" by simp
  from ks_edge [OF ks q c] have "unat (get_index (key m) n) = i" by simp
  then have "get_index (key m) n = of_nat i"
    using of_nat_unat_64 [of "get_index (key m) n"] by simp
  then show ?thesis using ge
    by (subst leaf_walk_next.simps) (simp add: m nt q add.commute)
qed

definition first_of :: "(nat list \<times> key_vector) list \<Rightarrow> nat list option \<times> nat list" where
  "first_of ls = (case ls of [] \<Rightarrow> (None, []) | x # _ \<Rightarrow> (Some (fst x), butlast (fst x)))"

lemma first_of_append: "xs \<noteq> [] \<Longrightarrow> first_of (xs @ ys) = first_of xs"
  by (cases xs) (auto simp: first_of_def)

lemma walk_step:
  assumes n: "get_kv t q = Some n" and nt: "\<not> IS_TRIE n" and c: "c < length (tyesde n)"
    and len: "length (tyesde n) = 2 ^ bits n" and b: "bits n \<le> 32"
  shows "leaf_walk_next t q (of_nat c) =
     (case get_child n c of
        None \<Rightarrow> leaf_walk_next t q (of_nat (Suc c))
      | Some m \<Rightarrow> if IS_LEAF m then Some (Some (q @ [c]), q) else leaf_walk_next t (q @ [c]) 0)"
proof -
  have p: "(2::nat) ^ bits n \<le> 2 ^ 32" using b by (rule_tac power_increasing) auto
  then have c32: "c \<le> 2 ^ 32" using c len by simp
  have u: "unat (of_nat c :: ulong) = c" using c32 by (rule word_of_nat_unat_64)
  have "\<not> (push_bit (bits n) 1 \<le> (of_nat c :: ulong))"
    using c len by (simp only: word_le_nat_alt u push_bit_1_unat [OF b])
  then show ?thesis
    by (subst leaf_walk_next.simps) (simp add: n nt u add.commute split: option.splits)
qed

lemma scan_subtree:
  assumes ks: "key_structure t"
  shows "get_kv t q = Some n \<Longrightarrow> q \<noteq> [] \<Longrightarrow> IS_TNODE n \<Longrightarrow> c \<le> length (tyesde n) \<Longrightarrow>
     leaf_walk_next t q (of_nat c) =
       (if from_slot n q c = [] then leaf_walk_next t q (of_nat (length (tyesde n)))
        else Some (first_of (from_slot n q c)))"
proof (induction "size n" arbitrary: n q c rule: less_induct)
  case less
  note n = less.prems(1) and q = less.prems(2) and tn = less.prems(3)
  from ks_nonroot [OF ks n q] have sh: "node_shape n" and nt: "\<not> IS_TRIE n" and b: "bits n \<le> 32"
    by simp_all
  from sh tn have len: "length (tyesde n) = 2 ^ bits n"
    by (simp add: node_shape_def IS_TNODE_def)
  show ?case using less.prems(4)
  proof (induction "length (tyesde n) - c" arbitrary: c)
    case 0
    then show ?case by (simp add: from_slot_end)
  next
    case (Suc d)
    then have c: "c < length (tyesde n)" by simp
    have ih: "leaf_walk_next t q (of_nat (Suc c)) =
       (if from_slot n q (Suc c) = [] then leaf_walk_next t q (of_nat (length (tyesde n)))
        else Some (first_of (from_slot n q (Suc c))))"
      using Suc.hyps(1) [of "Suc c"] Suc.hyps(2) c by simp
    note st = walk_step [OF n nt c len b]
    note fs = from_slot_step [OF c, of q]
    show ?case
    proof (cases "get_child n c")
      case None
      then show ?thesis using st ih fs by (simp add: slot_leaves_def)
    next
      case (Some m)
      show ?thesis
      proof (cases "IS_LEAF m")
        case True
        then show ?thesis using st Some fs by (simp add: slot_leaves_def first_of_def)
      next
        case False
        then have tm: "IS_TNODE m" by (simp add: IS_LEAF_def IS_TNODE_def)
        have m: "get_kv t (q @ [c]) = Some m" using n Some by (simp add: get_kv_snoc)
        from ks_nonroot [OF ks m] tm have lm: "length (tyesde m) = 2 ^ bits m" and bm: "bits m \<le> 32"
          by (simp_all add: node_shape_def IS_TNODE_def)
        have sl: "slot_leaves n q c = from_slot m (q @ [c]) 0"
          using Some False by (simp add: slot_leaves_def leaves_below_from_slot)
        have o: "leaf_walk_next t (q @ [c]) (of_nat 0) =
           (if from_slot m (q @ [c]) 0 = [] then leaf_walk_next t (q @ [c]) (of_nat (length (tyesde m)))
            else Some (first_of (from_slot m (q @ [c]) 0)))"
          using less.hyps [OF size_get_child [OF Some] m _ tm, of 0] by simp
        have ge: "push_bit (bits m) 1 \<le> (of_nat (length (tyesde m)) :: ulong)"
          by (simp add: lm push_bit_eq_mult)
        note cl = walk_climb [OF ks n Some ge]
        show ?thesis
        proof (cases "from_slot m (q @ [c]) 0 = []")
          case True
          then show ?thesis using st Some False o cl ih fs sl by simp
        next
          case False
          then show ?thesis using st Some \<open>\<not> IS_LEAF m\<close> o fs sl
            by (simp add: first_of_append)
        qed
      qed
    qed
  qed
qed

lemma ks_parent_tnode:
  assumes ks: "key_structure t" and m: "get_kv t q = Some m" and c: "get_child m i = Some n"
  shows "(q = [] \<or> IS_TNODE m) \<and> i < 2 ^ 32"
proof -
  have i: "i < length (tyesde m)" using c by (auto simp: get_child_def split: if_splits)
  show ?thesis
  proof (cases "q = []")
    case True
    then have "m = t" using m by simp
    then show ?thesis using True i ks by (simp add: key_structure_def)
  next
    case False
    from ks_nonroot [OF ks m False] i have "IS_TNODE m" "length (tyesde m) = 2 ^ bits m" "bits m \<le> 32"
      by (auto simp: node_shape_def IS_TNODE_def split: if_splits)
    moreover have "(2::nat) ^ bits m \<le> 2 ^ 32" using \<open>bits m \<le> 32\<close> by (rule_tac power_increasing) auto
    ultimately show ?thesis using i by simp
  qed
qed

lemma scan_rest:
  assumes ks: "key_structure t"
  shows "get_kv t p = Some n \<Longrightarrow> p = [] \<or> IS_TNODE n \<Longrightarrow> (p = [] \<longrightarrow> 1 \<le> unat ci) \<Longrightarrow>
     leaf_walk_next t p ci = Some (first_of (from_slot n p (unat ci) @ leaves_after t p))"
proof (induction p arbitrary: n ci rule: rev_induct)
  case Nil
  then have nt: "n = t" by simp
  have "IS_TRIE t" using ks by (simp add: key_structure_def IS_TRIE_def)
  moreover have "from_slot t [] (unat ci) = []"
    using Nil.prems(3) ks by (simp add: from_slot_end key_structure_def)
  ultimately show ?case using nt
    by (subst leaf_walk_next.simps) (simp add: leaves_after_root first_of_def)
next
  case (snoc i q)
  from snoc.prems(1) obtain m where m: "get_kv t q = Some m" and c: "get_child m i = Some n"
    by (auto simp: get_kv_snoc split: option.splits)
  from snoc.prems(2) have tn: "IS_TNODE n" by simp
  from ks_nonroot [OF ks snoc.prems(1)] tn have len: "length (tyesde n) = 2 ^ bits n" and b: "bits n \<le> 32"
    by (simp_all add: node_shape_def IS_TNODE_def)
  from ks_parent_tnode [OF ks m c] have pm: "q = [] \<or> IS_TNODE m" and i32: "i < 2 ^ 32" by simp_all
  have ui: "unat (of_nat (Suc i) :: ulong) = Suc i" using i32 by (intro word_of_nat_unat_64) simp
  have up: "leaf_walk_next t q (of_nat (Suc i)) = Some (first_of (leaves_after t (q @ [i])))"
    using snoc.IH [OF m pm, of "of_nat (Suc i)"] ui m by (simp add: leaves_after_snoc)
  have lenw: "unat (push_bit (bits n) 1 :: ulong) = length (tyesde n)"
    using len push_bit_1_unat [OF b] by simp
  show ?case
  proof (cases "unat ci < length (tyesde n)")
    case False
    then have ge: "push_bit (bits n) 1 \<le> ci" by (simp only: word_le_nat_alt lenw)
    have "from_slot n (q @ [i]) (unat ci) = []" using False by (simp add: from_slot_end)
    then show ?thesis using walk_climb [OF ks m c ge] up by simp
  next
    case True
    have ge: "push_bit (bits n) 1 \<le> (of_nat (length (tyesde n)) :: ulong)"
      by (simp add: len push_bit_eq_mult)
    have "leaf_walk_next t (q @ [i]) (of_nat (unat ci)) =
       (if from_slot n (q @ [i]) (unat ci) = [] then leaf_walk_next t (q @ [i]) (of_nat (length (tyesde n)))
        else Some (first_of (from_slot n (q @ [i]) (unat ci))))"
      using True by (intro scan_subtree [OF ks snoc.prems(1) _ tn]) simp_all
    then show ?thesis using walk_climb [OF ks m c ge] up
      by (simp add: of_nat_unat_64 first_of_append)
  qed
qed

lemma unat_drop_div: "unat (drop_bit p (w::'a::len word)) = unat w div 2 ^ p"
proof -
  have "unat (drop_bit p w) = drop_bit p (unat w)" by (rule unat_drop_bit_eq)
  also have "\<dots> = unat w div 2 ^ p" by (rule drop_bit_eq_div)
  finally show ?thesis .
qed

lemma unat_take_mod: "unat (take_bit p (w::'a::len word)) = unat w mod 2 ^ p"
proof -
  have "unat (take_bit p w) = take_bit p (unat w)" by (rule unsigned_take_bit_eq)
  also have "\<dots> = unat w mod 2 ^ p" by (rule take_bit_eq_mod)
  finally show ?thesis .
qed

lemma xor_zero_iff: "(a XOR b = 0) = (a = (b::'a::len word))"
  by (metis bit.xor_self xor.assoc xor.right_neutral xor.commute)

lemma covers_iff: "(drop_bit w (x XOR K) = 0) = (unat x div 2 ^ w = unat K div 2 ^ w)"
  for x K :: t_key
proof -
  have "(drop_bit w (x XOR K) = 0) = (drop_bit w x = drop_bit w K)"
    by (simp only: drop_bit_xor xor_zero_iff)
  also have "\<dots> = (unat (drop_bit w x) = unat (drop_bit w K))"
    by (simp only: word_unat_eq_iff)
  finally show ?thesis by (simp only: unat_drop_div)
qed

lemma covered_xor:
  "take_bit w K = 0 \<Longrightarrow> drop_bit w (x XOR K) = 0 \<Longrightarrow> unat (x XOR K) = unat x mod 2 ^ w"
  for x K :: t_key
proof -
  assume a: "take_bit w K = 0" and c: "drop_bit w (x XOR K) = 0"
  from c have "take_bit w (x XOR K) = x XOR K"
    by (simp only: take_bit_eq_self_iff_drop_bit_eq_0)
  then have "x XOR K = take_bit w x XOR take_bit w K" by (simp only: take_bit_xor)
  then have "x XOR K = take_bit w x" using a by simp
  then show ?thesis by (simp only: unat_take_mod)
qed

lemma aligned_mod: "take_bit w K = 0 \<Longrightarrow> unat K mod 2 ^ w = 0" for K :: t_key
proof -
  assume "take_bit w K = 0"
  then have "unat (take_bit w K) = 0" by simp
  then show ?thesis by (simp only: unat_take_mod)
qed

lemma nat_slot_less:
  "X div W = Y div W \<Longrightarrow> (X mod W) div P < (Y mod W) div P \<Longrightarrow> X < (Y::nat)"
proof -
  assume a: "X div W = Y div W" and b: "(X mod W) div P < (Y mod W) div P"
  have "X mod W < Y mod W" using b
    by (metis div_le_mono leD leI)
  moreover have "X = (X div W) * W + X mod W" "Y = (Y div W) * W + Y mod W" by simp_all
  ultimately show ?thesis using a by (metis nat_add_left_cancel_less)
qed

lemma nat_above_range:
  "Kn < k \<Longrightarrow> k div W \<noteq> Kn div W \<Longrightarrow> X div W = Kn div W \<Longrightarrow> X < (k::nat)"
proof -
  assume a: "Kn < k" "k div W \<noteq> Kn div W" "X div W = Kn div W"
  have "Kn div W \<le> k div W" using a(1) by (simp add: div_le_mono)
  with a(2) have "X div W < k div W" using a(3) by simp
  then show ?thesis
    by (metis div_le_mono leD leI)
qed

lemma nat_in_range_ge:
  "X div W = Kn div W \<Longrightarrow> Kn mod W = 0 \<Longrightarrow> Kn \<le> (X::nat)"
  by (metis div_mult_mod_eq le_add1 add.right_neutral)

text \<open>\<open>covers n x\<close>: the key \<open>x\<close> agrees with \<open>n\<close> above the index bits of \<open>n\<close>.\<close>

definition covers :: "key_vector \<Rightarrow> t_key \<Rightarrow> bool" where
  "covers n x = (drop_bit (pos n + bits n) (x XOR key n) = 0)"

lemma get_index_unat: "unat (get_index x n) = unat (x XOR key n) div 2 ^ pos n"
  by (simp only: get_index_def unat_drop_div unat_ucast_32_64)

lemma covers_index: "covers n x = (unat (get_index x n) < 2 ^ bits n)"
proof -
  have "covers n x = (unat (drop_bit (pos n + bits n) (x XOR key n)) = 0)"
    by (simp only: covers_def unat_eq_0)
  also have "\<dots> = (unat (x XOR key n) < 2 ^ (pos n + bits n))"
    by (simp only: unat_drop_div) (simp add: div_eq_0_iff)
  also have "\<dots> = (unat (x XOR key n) div 2 ^ pos n < 2 ^ bits n)"
    by (simp add: div_less_iff_less_mult power_add mult.commute)
  finally show ?thesis by (simp only: get_index_unat)
qed

lemma covers_same_index:
  assumes le: "pos c + bits c \<le> pos n" and cv: "covers c x"
  shows "get_index x n = get_index (key c) n"
proof -
  have "unat x div 2 ^ (pos c + bits c) = unat (key c) div 2 ^ (pos c + bits c)"
    using cv by (simp only: covers_def covers_iff)
  then have "unat x div 2 ^ (pos c + bits c) div 2 ^ (pos n - (pos c + bits c))
      = unat (key c) div 2 ^ (pos c + bits c) div 2 ^ (pos n - (pos c + bits c))" by simp
  then have "unat x div 2 ^ pos n = unat (key c) div 2 ^ pos n"
    using le by (simp add: div_mult2_eq [symmetric] power_add [symmetric])
  then have "unat (drop_bit (pos n) x) = unat (drop_bit (pos n) (key c))"
    by (simp only: unat_drop_div)
  then have d: "drop_bit (pos n) x = drop_bit (pos n) (key c)"
    by (simp only: word_unat_eq_iff)
  have "drop_bit (pos n) (x XOR key n) = drop_bit (pos n) (key c XOR key n)"
    by (simp only: drop_bit_xor d)
  then have "unat (drop_bit (pos n) (x XOR key n)) = unat (drop_bit (pos n) (key c XOR key n))"
    by simp
  then show ?thesis by (simp only: word_unat_eq_iff get_index_unat unat_drop_div)
qed

lemma covered_nat:
  assumes al: "take_bit (pos n + bits n) (key n) = 0" and cv: "covers n x"
  shows "unat x div 2 ^ (pos n + bits n) = unat (key n) div 2 ^ (pos n + bits n)"
    and "unat (get_index x n) = unat x mod 2 ^ (pos n + bits n) div 2 ^ pos n"
proof -
  show "unat x div 2 ^ (pos n + bits n) = unat (key n) div 2 ^ (pos n + bits n)"
    using cv by (simp only: covers_def covers_iff)
  show "unat (get_index x n) = unat x mod 2 ^ (pos n + bits n) div 2 ^ pos n"
    using covered_xor [OF al cv [unfolded covers_def]] by (simp only: get_index_unat)
qed

lemma slot_order:
  assumes al: "take_bit (pos n + bits n) (key n) = 0" and x: "covers n x" and y: "covers n y"
    and lt: "unat (get_index x n) < unat (get_index y n)"
  shows "x < y"
proof -
  note cx = covered_nat [OF al x] and cy = covered_nat [OF al y]
  have a: "unat x div 2 ^ (pos n + bits n) = unat y div 2 ^ (pos n + bits n)"
    by (simp only: cx(1) cy(1))
  have b: "unat x mod 2 ^ (pos n + bits n) div 2 ^ pos n < unat y mod 2 ^ (pos n + bits n) div 2 ^ pos n"
    using lt by (simp only: cx(2) cy(2))
  from a b have "unat x < unat y" by (rule nat_slot_less)
  then show ?thesis by (simp only: word_less_nat_alt)
qed

lemma range_ge:
  assumes al: "take_bit (pos n + bits n) (key n) = 0" and x: "covers n x"
  shows "key n \<le> x"
proof -
  have "unat (key n) \<le> unat x"
    using covered_nat(1) [OF al x] aligned_mod [OF al] by (rule nat_in_range_ge)
  then show ?thesis by (simp only: word_le_nat_alt)
qed

lemma above_range:
  assumes k: "key n < k" and nc: "\<not> covers n k" and x: "covers n x"
  shows "x < k"
proof -
  have "unat (key n) < unat k" using k by (simp only: word_less_nat_alt)
  moreover have "unat k div 2 ^ (pos n + bits n) \<noteq> unat (key n) div 2 ^ (pos n + bits n)"
    using nc unfolding covers_def covers_iff .
  moreover have "unat x div 2 ^ (pos n + bits n) = unat (key n) div 2 ^ (pos n + bits n)"
    using x by (simp only: covers_def covers_iff)
  ultimately have "unat x < unat k" by (rule nat_above_range)
  then show ?thesis by (simp only: word_less_nat_alt)
qed

lemma from_slot_mem:
  "x \<in> set (from_slot n p c) \<longleftrightarrow> (\<exists>i. c \<le> i \<and> i < length (tyesde n) \<and> x \<in> set (slot_leaves n p i))"
  by (auto simp: from_slot_def)

lemma leaves_below_mem:
  "x \<in> set (leaves_below n p) \<longleftrightarrow> (\<exists>i < length (tyesde n). x \<in> set (slot_leaves n p i))"
  by (auto simp: leaves_below_from_slot from_slot_mem)

lemma slot_leaves_cases:
  assumes "x \<in> set (slot_leaves n p i)"
  obtains c where "get_child n i = Some c" "IS_LEAF c" "x = (p @ [i], c)"
  | c where "get_child n i = Some c" "\<not> IS_LEAF c" "x \<in> set (leaves_below c (p @ [i]))"
proof (cases "get_child n i")
  case None
  then show ?thesis using assms by (simp add: slot_leaves_def)
next
  case (Some c)
  show ?thesis
  proof (cases "IS_LEAF c")
    case True
    then show ?thesis using assms Some that(1) by (simp add: slot_leaves_def)
  next
    case False
    then show ?thesis using assms Some that(2) by (simp add: slot_leaves_def)
  qed
qed

lemma tnode_shape:
  "node_shape c \<Longrightarrow> \<not> IS_LEAF c \<Longrightarrow>
     length (tyesde c) = 2 ^ bits c \<and> take_bit (pos c + bits c) (key c) = 0 \<and> bits c \<le> 32"
  by (auto simp: node_shape_def IS_LEAF_def KEYLENGTH_def)

lemma slot_leaves_index:
  "all_slots key_edge n \<Longrightarrow> x \<in> set (slot_leaves n p i) \<Longrightarrow>
     unat (get_index (key (snd x)) n) = i"
proof (induction "size n" arbitrary: n p i rule: less_induct)
  case less
  from less.prems(2) show ?case
  proof (cases rule: slot_leaves_cases)
    case (1 c)
    from all_slots_child [OF less.prems(1) 1(1)] 1(3) show ?thesis by (simp add: key_edge_def)
  next
    case (2 c)
    from all_slots_child [OF less.prems(1) 2(1)]
    have e: "key_edge n i c" and a: "all_slots key_edge c" by simp_all
    from e 2(2) have sh: "length (tyesde c) = 2 ^ bits c" and le: "pos c + bits c \<le> pos n"
      using tnode_shape [of c] by (simp_all add: key_edge_def)
    from 2(3) obtain j where j: "j < length (tyesde c)" "x \<in> set (slot_leaves c (p @ [i]) j)"
      by (auto simp: leaves_below_mem)
    from less.hyps [OF size_get_child [OF 2(1)] a j(2)] j(1) sh
    have "covers c (key (snd x))" by (simp add: covers_index)
    from covers_same_index [OF le this] e show ?thesis by (simp add: key_edge_def)
  qed
qed

lemma leaves_below_covered:
  assumes a: "all_slots key_edge n" and sh: "length (tyesde n) = 2 ^ bits n"
    and x: "x \<in> set (leaves_below n p)"
  shows "covers n (key (snd x))"
proof -
  from x obtain j where j: "j < length (tyesde n)" "x \<in> set (slot_leaves n p j)"
    by (auto simp: leaves_below_mem)
  from slot_leaves_index [OF a j(2)] j(1) sh show ?thesis by (simp add: covers_index)
qed

lemma sorted_wrt_concat_upt:
  "(\<And>i. i < m \<Longrightarrow> sorted_wrt P (f i)) \<Longrightarrow>
   (\<And>i j x y. i < j \<Longrightarrow> j < m \<Longrightarrow> x \<in> set (f i) \<Longrightarrow> y \<in> set (f j) \<Longrightarrow> P x y) \<Longrightarrow>
   sorted_wrt P (concat (map f [0..<m]))"
proof (induction m)
  case 0
  then show ?case by simp
next
  case (Suc m)
  have "sorted_wrt P (concat (map f [0..<m]))"
    using Suc.prems by (intro Suc.IH) auto
  moreover have "sorted_wrt P (f m)" using Suc.prems(1) by simp
  moreover have "\<forall>x\<in>set (concat (map f [0..<m])). \<forall>y\<in>set (f m). P x y"
    using Suc.prems(2) [of _ m] by auto
  ultimately show ?case by (simp add: sorted_wrt_append)
qed

definition key_lt :: "nat list \<times> key_vector \<Rightarrow> nat list \<times> key_vector \<Rightarrow> bool" where
  "key_lt a b = (key (snd a) < key (snd b))"

lemma slot_leaves_sorted:
  "all_slots key_edge n \<Longrightarrow> sorted_wrt key_lt (slot_leaves n p i)"
proof (induction "size n" arbitrary: n p i rule: less_induct)
  case less
  show ?case
  proof (cases "get_child n i")
    case None
    then show ?thesis by (simp add: slot_leaves_def)
  next
    case (Some c)
    from all_slots_child [OF less.prems(1) Some]
    have e: "key_edge n i c" and a: "all_slots key_edge c" by simp_all
    show ?thesis
    proof (cases "IS_LEAF c")
      case True
      then show ?thesis using Some by (simp add: slot_leaves_def)
    next
      case False
      with e have sh: "length (tyesde c) = 2 ^ bits c" and al: "take_bit (pos c + bits c) (key c) = 0"
        using tnode_shape [of c] by (simp_all add: key_edge_def)
      have "sorted_wrt key_lt (concat (map (slot_leaves c (p @ [i])) [0..<length (tyesde c)]))"
      proof (rule sorted_wrt_concat_upt)
        fix j
        show "sorted_wrt key_lt (slot_leaves c (p @ [i]) j)"
          by (rule less.hyps [OF size_get_child [OF Some] a])
      next
        fix j1 j2 x y
        assume j: "j1 < j2" "j2 < length (tyesde c)"
          and x: "x \<in> set (slot_leaves c (p @ [i]) j1)" and y: "y \<in> set (slot_leaves c (p @ [i]) j2)"
        note ix = slot_leaves_index [OF a x] and iy = slot_leaves_index [OF a y]
        have cx: "covers c (key (snd x))" using ix j sh by (simp add: covers_index)
        have cy: "covers c (key (snd y))" using iy j sh by (simp add: covers_index)
        from slot_order [OF al cx cy] ix iy j(1) show "key_lt x y" by (simp add: key_lt_def)
      qed
      then show ?thesis using Some False
        by (simp add: slot_leaves_def leaves_below_from_slot from_slot_def)
    qed
  qed
qed

lemma root_leaves: "length (tyesde t) = 1 \<Longrightarrow> leaves_below t [] = slot_leaves t [] 0"
  by (simp add: leaves_below_from_slot from_slot_def)

lemma leaves_sorted: "key_structure t \<Longrightarrow> sorted_wrt key_lt (leaves_below t [])"
  by (simp add: root_leaves key_structure_def slot_leaves_sorted)

lemma leaf_mem_kv:
  "x \<in> set (leaves_below n p) \<Longrightarrow>
     \<exists>q. fst x = p @ q \<and> q \<noteq> [] \<and> get_kv n q = Some (snd x) \<and> IS_LEAF (snd x)"
proof (induction "size n" arbitrary: n p rule: less_induct)
  case less
  from less.prems obtain i where i: "i < length (tyesde n)" "x \<in> set (slot_leaves n p i)"
    by (auto simp: leaves_below_mem)
  from i(2) show ?case
  proof (cases rule: slot_leaves_cases)
    case (1 c)
    then show ?thesis by (intro exI [of _ "[i]"]) simp
  next
    case (2 c)
    from less.hyps [OF size_get_child [OF 2(1)] 2(3)]
    obtain q where "fst x = (p @ [i]) @ q" "q \<noteq> []" "get_kv c q = Some (snd x)" "IS_LEAF (snd x)"
      by blast
    then show ?thesis using 2(1) by (intro exI [of _ "i # q"]) simp
  qed
qed

lemma kv_leaf_mem:
  "all_slots key_edge n \<Longrightarrow> get_kv n q = Some l \<Longrightarrow> q \<noteq> [] \<Longrightarrow> IS_LEAF l \<Longrightarrow>
     (p @ q, l) \<in> set (leaves_below n p)"
proof (induction q arbitrary: n p)
  case Nil
  then show ?case by simp
next
  case (Cons i q)
  from Cons.prems(2) obtain c where c: "get_child n i = Some c" and l: "get_kv c q = Some l"
    by (auto split: option.splits)
  from c have i: "i < length (tyesde n)" by (auto simp: get_child_def split: if_splits)
  from all_slots_child [OF Cons.prems(1) c]
  have e: "key_edge n i c" and a: "all_slots key_edge c" by simp_all
  show ?case
  proof (cases "q = []")
    case True
    then have "(p @ i # q, l) \<in> set (slot_leaves n p i)"
      using c l Cons.prems(4) by (simp add: slot_leaves_def)
    then show ?thesis using i by (auto simp: leaves_below_mem)
  next
    case False
    then obtain j q' where "q = j # q'" by (cases q) auto
    with l have "get_child c j \<noteq> None" by (auto split: option.splits)
    then have "tyesde c \<noteq> []" by (auto simp: get_child_def)
    with e have nl: "\<not> IS_LEAF c"
      by (auto simp: key_edge_def node_shape_def IS_LEAF_def split: if_splits)
    from Cons.IH [OF a l False Cons.prems(4), of "p @ [i]"]
    have "(p @ i # q, l) \<in> set (slot_leaves n p i)"
      using c nl by (simp add: slot_leaves_def)
    then show ?thesis using i by (auto simp: leaves_below_mem)
  qed
qed

definition before_slot :: "key_vector \<Rightarrow> nat list \<Rightarrow> nat \<Rightarrow> (nat list \<times> key_vector) list" where
  "before_slot n p c = concat (map (slot_leaves n p) [0..<c])"

lemma before_slot_mem:
  "x \<in> set (before_slot n p c) \<longleftrightarrow> (\<exists>i < c. x \<in> set (slot_leaves n p i))"
  by (auto simp: before_slot_def)

lemma from_slot_split:
  assumes "c < length (tyesde n)"
  shows "from_slot n p 0 = before_slot n p c @ slot_leaves n p c @ from_slot n p (Suc c)"
proof -
  have "[0..<length (tyesde n)] = [0..<c] @ [c..<c + (length (tyesde n) - c)]"
    using assms upt_add_eq_append [of 0 c "length (tyesde n) - c"] by simp
  then have "from_slot n p 0 = before_slot n p c @ from_slot n p c"
    using assms by (simp add: from_slot_def before_slot_def)
  then show ?thesis using from_slot_step [OF assms] by simp
qed

text \<open>
  What the first loop establishes: every leaf before the place it stops at has a key
  below \<open>k\<close>, every leaf from there on a key of at least \<open>k\<close>.
\<close>

definition walk_post ::
  "key_vector \<Rightarrow> t_key \<Rightarrow> (nat list \<times> key_vector) list \<Rightarrow> walk \<Rightarrow> bool" where
  "walk_post t k all w =
     (case w of
        Found lp p' \<Rightarrow>
          (\<exists>B l A. all = B @ (lp, l) # A \<and> (\<forall>x\<in>set B. key (snd x) < k) \<and> k \<le> key l \<and>
                   p' = butlast lp)
      | Scan p' ci \<Rightarrow>
          (\<exists>B n'. get_kv t p' = Some n' \<and> (p' = [] \<or> IS_TNODE n') \<and> (p' = [] \<longrightarrow> 1 \<le> unat ci) \<and>
                  all = B @ from_slot n' p' (unat ci) @ leaves_after t p' \<and>
                  (\<forall>x\<in>set B. key (snd x) < k) \<and>
                  (\<forall>x\<in>set (from_slot n' p' (unat ci) @ leaves_after t p'). k \<le> key (snd x))))"

lemma root_index: "pos t = KEYLENGTH \<Longrightarrow> get_index k t = 0"
proof -
  assume p: "pos t = KEYLENGTH"
  have "unat (k XOR key t) < 2 ^ 32" using unsigned_less [of "k XOR key t", where 'a=nat] by simp
  then have "unat (get_index k t) = 0" using p by (simp add: get_index_unat KEYLENGTH_def)
  then show ?thesis by (simp only: unat_eq_0)
qed

lemma find_inv:
  assumes ks: "key_structure t"
  shows "get_kv t p = Some pn \<Longrightarrow> p = [] \<or> IS_TNODE pn \<Longrightarrow>
     all = B @ from_slot pn p 0 @ leaves_after t p \<Longrightarrow>
     \<forall>x\<in>set B. key (snd x) < k \<Longrightarrow> \<forall>x\<in>set (leaves_after t p). k \<le> key (snd x) \<Longrightarrow>
     walk_post t k all (leaf_walk_find k pn p)"
proof (induction k pn p arbitrary: B rule: leaf_walk_find.induct)
  case (1 k pn p)
  note pn = "1.prems"(1) and kind = "1.prems"(2) and all = "1.prems"(3)
    and Blt = "1.prems"(4) and Age = "1.prems"(5)
  define ci where "ci = (if key pn < k then get_index k pn else 0)"
  define c where "c = unat ci"
  have slots: "all_slots key_edge pn"
    using ks pn by (auto simp: key_structure_def intro: all_slots_kv)
  have len: "length (tyesde pn) = 2 ^ bits pn" and b32: "bits pn \<le> 32"
    and root0: "p = [] \<longrightarrow> ci = 0"
    and al: "p \<noteq> [] \<longrightarrow> take_bit (pos pn + bits pn) (key pn) = 0"
  proof -
    show "length (tyesde pn) = 2 ^ bits pn"
    proof (cases "p = []")
      case True
      then show ?thesis using pn ks by (simp add: key_structure_def)
    next
      case False
      then show ?thesis using ks_nonroot [OF ks pn] kind by (simp add: node_shape_def IS_TNODE_def)
    qed
    show "bits pn \<le> 32"
    proof (cases "p = []")
      case True
      then show ?thesis using pn ks by (simp add: key_structure_def)
    next
      case False
      then show ?thesis using ks_nonroot [OF ks pn] by simp
    qed
    show "p = [] \<longrightarrow> ci = 0"
      using pn ks by (auto simp: ci_def key_structure_def root_index)
    show "p \<noteq> [] \<longrightarrow> take_bit (pos pn + bits pn) (key pn) = 0"
      using ks_nonroot [OF ks pn] kind by (auto simp: node_shape_def IS_TNODE_def)
  qed
  have dz: "(drop_bit (bits pn) ci \<noteq> 0) = (2 ^ bits pn \<le> c)"
  proof -
    have "(drop_bit (bits pn) ci = 0) = (unat (drop_bit (bits pn) ci) = 0)"
      by (simp only: unat_eq_0)
    also have "\<dots> = (c < 2 ^ bits pn)"
      by (simp only: unat_drop_div c_def) (simp add: div_eq_0_iff)
    finally show ?thesis by auto
  qed
  have c32: "c < 2 ^ 32"
  proof -
    have u: "unat (k XOR key pn) < 2 ^ 32"
      using unsigned_less [of "k XOR key pn", where 'a=nat] by simp
    have "unat (k XOR key pn) div 2 ^ pos pn < 2 ^ 32"
      by (rule le_less_trans [OF div_le_dividend u])
    then have "unat (get_index k pn) < 2 ^ 32" by (simp only: get_index_unat)
    then show ?thesis by (simp add: c_def ci_def)
  qed
  have c1: "unat (ci + 1) = Suc c"
  proof -
    have "unat ci + unat (1::ulong) < 2 ^ LENGTH(64)" using c32 by (simp add: c_def)
    then have "unat (ci + 1) = unat ci + unat (1::ulong)" by (simp only: unat_add_lem)
    then show ?thesis by (simp add: c_def)
  qed
  have covered: "\<And>x. p \<noteq> [] \<Longrightarrow> x \<in> set (from_slot pn p 0) \<Longrightarrow> covers pn (key (snd x))"
    using leaves_below_covered [OF slots len] by (simp add: leaves_below_from_slot)
  show ?case
  proof (cases "drop_bit (bits pn) ci \<noteq> 0")
    case True
    then have ge: "2 ^ bits pn \<le> c" by (simp only: dz)
    have pne: "p \<noteq> []" using True root0 by auto
    have kgt: "key pn < k" using True by (auto simp: ci_def split: if_splits)
    then have cik: "ci = get_index k pn" by (simp add: ci_def)
    have nc: "\<not> covers pn k" using ge by (simp add: covers_index cik [symmetric] c_def)
    have res: "leaf_walk_find k pn p = Scan p ci"
      using True by (subst leaf_walk_find.simps, fold ci_def) (simp add: Let_def)
    have e: "from_slot pn p c = []" using ge len by (simp add: from_slot_end)
    have lt: "\<forall>x\<in>set (from_slot pn p 0). key (snd x) < k"
      using above_range [OF kgt nc covered [OF pne]] by blast
    show ?thesis
      unfolding res walk_post_def
      apply simp
      apply (rule exI [of _ "B @ from_slot pn p 0"])
      using pn kind pne all Blt Age e lt by (auto simp: c_def)
  next
    case False
    then have clt: "c < length (tyesde pn)" using dz len by simp
    note split = from_slot_split [OF clt, of p]
    have F1: "\<forall>x\<in>set (before_slot pn p c). key (snd x) < k"
    proof
      fix x assume "x \<in> set (before_slot pn p c)"
      then obtain i where i: "i < c" "x \<in> set (slot_leaves pn p i)" by (auto simp: before_slot_mem)
      then have c0: "c \<noteq> 0" by simp
      then have pne: "p \<noteq> []" using root0 by (auto simp: c_def)
      have kgt: "key pn < k" using c0 by (auto simp: c_def ci_def split: if_splits)
      then have cik: "unat (get_index k pn) = c" by (simp add: ci_def c_def)
      have ck: "covers pn k" using clt len cik by (simp add: covers_index)
      have ix: "unat (get_index (key (snd x)) pn) = i" by (rule slot_leaves_index [OF slots i(2)])
      have cx: "covers pn (key (snd x))" using ix i(1) clt len by (simp add: covers_index)
      from slot_order [OF al [rule_format, OF pne] cx ck] ix cik i(1) show "key (snd x) < k" by simp
    qed
    have F2: "\<forall>x\<in>set (from_slot pn p (Suc c)). k \<le> key (snd x)"
    proof
      fix x assume "x \<in> set (from_slot pn p (Suc c))"
      then obtain i where i: "Suc c \<le> i" "i < length (tyesde pn)" "x \<in> set (slot_leaves pn p i)"
        by (auto simp: from_slot_mem)
      then have pne: "p \<noteq> []" using pn ks by (auto simp: key_structure_def)
      have ix: "unat (get_index (key (snd x)) pn) = i" by (rule slot_leaves_index [OF slots i(3)])
      have cx: "covers pn (key (snd x))" using ix i(2) len by (simp add: covers_index)
      show "k \<le> key (snd x)"
      proof (cases "key pn < k")
        case True
        then have cik: "unat (get_index k pn) = c" by (simp add: ci_def c_def)
        have ck: "covers pn k" using clt len cik by (simp add: covers_index)
        from slot_order [OF al [rule_format, OF pne] ck cx] ix cik i(1) show ?thesis by simp
      next
        case False
        from range_ge [OF al [rule_format, OF pne] cx] False show ?thesis by simp
      qed
    qed
    show ?thesis
    proof (cases "get_child pn c")
      case None
      have res: "leaf_walk_find k pn p = Scan p (ci + 1)"
        using False None by (subst leaf_walk_find.simps, fold ci_def) (simp add: Let_def c_def)
      have sl: "slot_leaves pn p c = []" using None by (simp add: slot_leaves_def)
      show ?thesis
        unfolding res walk_post_def
        apply simp
        apply (rule exI [of _ "B @ before_slot pn p c"])
        using pn kind all Blt Age F1 F2 split sl by (auto simp: c1)
    next
      case (Some n)
      show ?thesis
      proof (cases "IS_LEAF n")
        case True
        then have ntn: "\<not> IS_TNODE n" by (simp add: IS_LEAF_def IS_TNODE_def)
        have sl: "slot_leaves pn p c = [(p @ [c], n)]" using Some True by (simp add: slot_leaves_def)
        show ?thesis
        proof (cases "k \<le> key n")
          case True
          have res: "leaf_walk_find k pn p = Found (p @ [c]) p"
            using False Some \<open>IS_LEAF n\<close> True
            by (subst leaf_walk_find.simps, fold ci_def) (simp add: Let_def c_def)
          show ?thesis
            unfolding res walk_post_def
            apply simp
            apply (rule exI [of _ "B @ before_slot pn p c"])
            apply (rule exI [of _ n])
            using all Blt F1 split sl True by auto
        next
          case False
          have res: "leaf_walk_find k pn p = Scan p (ci + 1)"
            using \<open>\<not> drop_bit (bits pn) ci \<noteq> 0\<close> Some ntn False
            by (subst leaf_walk_find.simps, fold ci_def) (simp add: Let_def c_def)
          show ?thesis
            unfolding res walk_post_def
            apply simp
            apply (rule exI [of _ "B @ before_slot pn p c @ [(p @ [c], n)]"])
            using pn kind all Blt Age F1 F2 split sl False by (auto simp: c1)
        qed
      next
        case nl: False
        then have tn: "IS_TNODE n" by (simp add: IS_LEAF_def IS_TNODE_def)
        have res: "leaf_walk_find k pn p = leaf_walk_find k n (p @ [c])"
          using False Some nl tn
          by (subst leaf_walk_find.simps, fold ci_def) (simp add: Let_def c_def)
        have sl: "slot_leaves pn p c = from_slot n (p @ [c]) 0"
          using Some nl by (simp add: slot_leaves_def leaves_below_from_slot)
        have n: "get_kv t (p @ [c]) = Some n" using pn Some by (simp add: get_kv_snoc)
        have la: "leaves_after t (p @ [c]) = from_slot pn p (Suc c) @ leaves_after t p"
          using pn by (simp add: leaves_after_snoc)
        have "walk_post t k all (leaf_walk_find k n (p @ [unat ci]))"
        proof (rule "1.IH" [OF ci_def False _ _ tn, of "B @ before_slot pn p c"])
          show "get_child pn (unat ci) = Some n" using Some by (simp add: c_def)
          show "\<not> (IS_LEAF n \<and> k \<le> key n)" using nl by simp
          show "get_kv t (p @ [unat ci]) = Some n" using n by (simp add: c_def)
          show "p @ [unat ci] = [] \<or> IS_TNODE n" using tn by simp
          show "all = (B @ before_slot pn p c) @ from_slot n (p @ [unat ci]) 0 @ leaves_after t (p @ [unat ci])"
            using all split sl la by (simp add: c_def)
          show "\<forall>x\<in>set (B @ before_slot pn p c). key (snd x) < k" using Blt F1 by auto
          show "\<forall>x\<in>set (leaves_after t (p @ [unat ci])). k \<le> key (snd x)"
            using la F2 Age by (auto simp: c_def)
        qed
        then show ?thesis by (simp add: res c_def)
      qed
    qed
  qed
qed

definition key_ge :: "t_key \<Rightarrow> nat list \<times> key_vector \<Rightarrow> bool" where
  "key_ge k x = (k \<le> key (snd x))"

lemma leaf_walk_rcu_from:
  assumes ks: "key_structure t" and tn: "get_kv t tn = Some n" and kind: "tn = [] \<or> IS_TNODE n"
    and all: "leaves_below t [] = B @ from_slot n tn 0 @ leaves_after t tn"
    and B: "\<forall>x\<in>set B. key (snd x) < k" and A: "\<forall>x\<in>set (leaves_after t tn). k \<le> key (snd x)"
  shows "leaf_walk_rcu t tn k = Some (first_of (filter (key_ge k) (leaves_below t [])))"
proof -
  note post = find_inv [OF ks tn kind all B A]
  show ?thesis
  proof (cases "leaf_walk_find k n tn")
    case (Found lp p')
    with post obtain B' l A' where f: "leaves_below t [] = B' @ (lp, l) # A'"
      "\<forall>x\<in>set B'. key (snd x) < k" "k \<le> key l" "p' = butlast lp"
      by (auto simp: walk_post_def)
    have "filter (key_ge k) B' = []" using f(2) by (auto simp: filter_empty_conv key_ge_def)
    then have "filter (key_ge k) (leaves_below t []) = (lp, l) # filter (key_ge k) A'"
      using f(1,3) by (simp add: key_ge_def)
    then show ?thesis using Found tn f(4) by (simp add: leaf_walk_rcu_def first_of_def)
  next
    case (Scan p' ci)
    with post obtain B' n' where f: "get_kv t p' = Some n'" "p' = [] \<or> IS_TNODE n'"
      "p' = [] \<longrightarrow> 1 \<le> unat ci"
      "leaves_below t [] = B' @ from_slot n' p' (unat ci) @ leaves_after t p'"
      "\<forall>x\<in>set B'. key (snd x) < k"
      "\<forall>x\<in>set (from_slot n' p' (unat ci) @ leaves_after t p'). k \<le> key (snd x)"
      by (auto simp: walk_post_def)
    have "filter (key_ge k) B' = []" using f(5) by (auto simp: filter_empty_conv key_ge_def)
    moreover have "filter (key_ge k) (from_slot n' p' (unat ci) @ leaves_after t p')
        = from_slot n' p' (unat ci) @ leaves_after t p'"
      using f(6) by (intro filter_True) (simp add: key_ge_def)
    ultimately have "filter (key_ge k) (leaves_below t [])
        = from_slot n' p' (unat ci) @ leaves_after t p'"
      by (simp only: f(4) filter_append) simp
    then show ?thesis using Scan tn scan_rest [OF ks f(1) f(2) f(3)]
      by (simp add: leaf_walk_rcu_def)
  qed
qed

lemma leaf_walk_rcu_root:
  assumes ks: "key_structure t"
  shows "leaf_walk_rcu t [] k = Some (first_of (filter (key_ge k) (leaves_below t [])))"
  by (rule leaf_walk_rcu_from [OF ks, of "[]" t "[]"])
     (simp_all add: leaves_after_root leaves_below_from_slot)

lemma decompose_at:
  assumes ks: "key_structure t"
  shows "get_kv t p = Some n \<Longrightarrow> p = [] \<or> IS_TNODE n \<Longrightarrow>
     \<exists>B. leaves_below t [] = B @ from_slot n p 0 @ leaves_after t p"
proof (induction p arbitrary: n rule: rev_induct)
  case Nil
  then show ?case by (simp add: leaves_after_root leaves_below_from_slot)
next
  case (snoc i q)
  from snoc.prems(1) obtain m where m: "get_kv t q = Some m" and c: "get_child m i = Some n"
    by (auto simp: get_kv_snoc split: option.splits)
  from ks_parent_tnode [OF ks m c] have pm: "q = [] \<or> IS_TNODE m" by simp
  from snoc.IH [OF m pm] obtain B where B: "leaves_below t [] = B @ from_slot m q 0 @ leaves_after t q"
    by blast
  have i: "i < length (tyesde m)" using c by (auto simp: get_child_def split: if_splits)
  have nl: "\<not> IS_LEAF n" using snoc.prems(2) by (simp add: IS_LEAF_def IS_TNODE_def)
  have sl: "slot_leaves m q i = from_slot n (q @ [i]) 0"
    using c nl by (simp add: slot_leaves_def leaves_below_from_slot)
  show ?case
    using B from_slot_split [OF i, of q] sl m
    by (intro exI [of _ "B @ before_slot m q i"]) (simp add: leaves_after_snoc)
qed

lemma restart_pre:
  assumes ks: "key_structure t" and x: "x \<in> set (leaves_below t [])"
    and nowrap: "\<not> key (snd x) + 1 < key (snd x)"
  shows "\<exists>n B. get_kv t (butlast (fst x)) = Some n \<and> (butlast (fst x) = [] \<or> IS_TNODE n) \<and>
     leaves_below t [] = B @ from_slot n (butlast (fst x)) 0 @ leaves_after t (butlast (fst x)) \<and>
     (\<forall>y\<in>set B. key (snd y) < key (snd x) + 1) \<and>
     (\<forall>y\<in>set (leaves_after t (butlast (fst x))). key (snd x) + 1 \<le> key (snd y))"
proof -
  from leaf_mem_kv [OF x] obtain q where q: "fst x = q" "q \<noteq> []" "get_kv t q = Some (snd x)"
    "IS_LEAF (snd x)" by auto
  then obtain tp i where qi: "q = tp @ [i]" by (cases q rule: rev_cases) auto
  with q obtain n where n: "get_kv t tp = Some n" and c: "get_child n i = Some (snd x)"
    by (auto simp: get_kv_snoc split: option.splits)
  from ks_parent_tnode [OF ks n c] have kind: "tp = [] \<or> IS_TNODE n" by simp
  from decompose_at [OF ks n kind] obtain B
    where B: "leaves_below t [] = B @ from_slot n tp 0 @ leaves_after t tp" by blast
  have i: "i < length (tyesde n)" using c by (auto simp: get_child_def split: if_splits)
  have "x \<in> set (slot_leaves n tp i)"
    using c q(1,4) qi by (cases x) (simp add: slot_leaves_def)
  then have xin: "x \<in> set (from_slot n tp 0)" using i by (auto simp: from_slot_mem)
  have srt: "sorted_wrt key_lt (B @ from_slot n tp 0 @ leaves_after t tp)"
    using leaves_sorted [OF ks] B by simp
  have ne: "key (snd x) \<noteq> - 1"
  proof
    assume "key (snd x) = - 1"
    then have "key (snd x) + 1 < key (snd x)" by (simp add: word_gt_0)
    with nowrap show False by simp
  qed
  have b: "\<forall>y\<in>set B. key (snd y) < key (snd x) + 1"
  proof
    fix y assume "y \<in> set B"
    with srt xin have "key (snd y) < key (snd x)" by (auto simp: sorted_wrt_append key_lt_def)
    moreover have "key (snd x) \<le> key (snd x) + 1" using nowrap by simp
    ultimately show "key (snd y) < key (snd x) + 1" by simp
  qed
  have a: "\<forall>y\<in>set (leaves_after t tp). key (snd x) + 1 \<le> key (snd y)"
  proof
    fix y assume "y \<in> set (leaves_after t tp)"
    with srt xin have "key (snd x) < key (snd y)" by (auto simp: sorted_wrt_append key_lt_def)
    then show "key (snd x) + 1 \<le> key (snd y)" by (rule inc_le)
  qed
  show ?thesis using n kind B a b q(1) qi by auto
qed

lemma dump_loop_ok:
  assumes ks: "key_structure t" and nn: "\<forall>l. 0 \<le> dump_leaf l"
  shows "get_kv t tp = Some pn \<Longrightarrow> tp = [] \<or> IS_TNODE pn \<Longrightarrow>
     leaves_below t [] = B @ from_slot pn tp 0 @ leaves_after t tp \<Longrightarrow>
     \<forall>x\<in>set B. key (snd x) < k \<Longrightarrow> \<forall>x\<in>set (leaves_after t tp). k \<le> key (snd x) \<Longrightarrow>
     R = filter (key_ge k) (leaves_below t []) \<Longrightarrow>
     \<exists>kf. fib_table_dump_loop dump_leaf t tp k count seen =
            Some (None, kf, count + int (length R), seen @ map snd R)"
proof (induction R arbitrary: tp pn B k count seen)
  case Nil
  from leaf_walk_rcu_from [OF ks Nil.prems(1-5)] Nil.prems(6)
  have "leaf_walk_rcu t tp k = Some (None, [])" by (simp add: first_of_def)
  then show ?case by (subst fib_table_dump_loop.simps) simp
next
  case (Cons x R')
  from leaf_walk_rcu_from [OF ks Cons.prems(1-5)] Cons.prems(6) [symmetric]
  have lw: "leaf_walk_rcu t tp k = Some (Some (fst x), butlast (fst x))" by (simp add: first_of_def)
  have "x \<in> set (filter (key_ge k) (leaves_below t []))" using Cons.prems(6) [symmetric] by simp
  then have xin: "x \<in> set (leaves_below t [])" and kx: "k \<le> key (snd x)"
    by (simp_all add: key_ge_def)
  from leaf_mem_kv [OF xin] have l: "get_kv t (fst x) = Some (snd x)" by auto
  have srt: "sorted_wrt key_lt (x # R')"
    using sorted_wrt_filter [OF leaves_sorted [OF ks], of "key_ge k"] Cons.prems(6) by simp
  then have gt: "\<forall>y\<in>set R'. key (snd x) < key (snd y)" by (simp add: key_lt_def)
  show ?case
  proof (cases "key (snd x) + 1 < key (snd x)")
    case True
    then have "key (snd x) + 1 \<le> key (snd x)" by simp
    then have "key (snd x) = - 1" by (rule inc_less_eq_triv_imp)
    then have "R' = []" using gt by (cases R') (auto simp: word_order.extremum_strict)
    then show ?thesis using lw l nn True
      by (subst fib_table_dump_loop.simps) (simp add: Let_def not_less [symmetric])
  next
    case False
    from restart_pre [OF ks xin False] obtain n B'
      where r: "get_kv t (butlast (fst x)) = Some n" "butlast (fst x) = [] \<or> IS_TNODE n"
        "leaves_below t [] = B' @ from_slot n (butlast (fst x)) 0 @ leaves_after t (butlast (fst x))"
        "\<forall>y\<in>set B'. key (snd y) < key (snd x) + 1"
        "\<forall>y\<in>set (leaves_after t (butlast (fst x))). key (snd x) + 1 \<le> key (snd y)"
      by blast
    have ne: "key (snd x) \<noteq> - 1"
    proof
      assume "key (snd x) = - 1"
      then have "key (snd x) + 1 < key (snd x)" by (simp add: word_gt_0)
      with False show False by simp
    qed
    then have ge': "\<And>y. key_ge (key (snd x) + 1) y = (key (snd x) < key (snd y))"
      by (simp add: key_ge_def inc_less_eq_iff)
    have imp: "\<And>y. key (snd x) < key (snd y) \<Longrightarrow> key_ge k y"
      using kx by (auto simp: key_ge_def)
    have "filter (key_ge (key (snd x) + 1)) (filter (key_ge k) (leaves_below t []))
        = filter (key_ge (key (snd x) + 1)) (leaves_below t [])"
      unfolding filter_filter
      by (rule filter_cong) (auto simp: ge' imp)
    moreover have "filter (key_ge (key (snd x) + 1)) (x # R') = R'"
      using gt by (simp add: ge' filter_id_conv)
    ultimately have R': "R' = filter (key_ge (key (snd x) + 1)) (leaves_below t [])"
      using Cons.prems(6) by simp
    from Cons.IH [OF r R', of "count + 1" "seen @ [snd x]"]
    obtain kf where "fib_table_dump_loop dump_leaf t (butlast (fst x)) (key (snd x) + 1) (count + 1)
        (seen @ [snd x]) = Some (None, kf, count + 1 + int (length R'), (seen @ [snd x]) @ map snd R')"
      by blast
    then show ?thesis using lw l nn False
      by (subst fib_table_dump_loop.simps) (simp add: Let_def not_less [symmetric])
  qed
qed

text \<open>\<open>trie_leaf t lp l\<close>: the pointer \<open>lp\<close> leads to the leaf \<open>l\<close> of the trie \<open>t\<close>.\<close>

definition trie_leaf :: "key_vector \<Rightarrow> nat list \<Rightarrow> key_vector \<Rightarrow> bool" where
  "trie_leaf t lp l = (lp \<noteq> [] \<and> get_kv t lp = Some l \<and> IS_LEAF l)"

lemma trie_leaf_iff:
  assumes ks: "key_structure t"
  shows "trie_leaf t lp l \<longleftrightarrow> (lp, l) \<in> set (leaves_below t [])"
proof
  assume "trie_leaf t lp l"
  then show "(lp, l) \<in> set (leaves_below t [])"
    using kv_leaf_mem [of t lp l "[]"] ks by (simp add: trie_leaf_def key_structure_def)
next
  assume "(lp, l) \<in> set (leaves_below t [])"
  from leaf_mem_kv [OF this] show "trie_leaf t lp l" by (simp add: trie_leaf_def)
qed

text \<open>
  C10. In a trie with \<open>key_structure\<close>, \<^verbatim>\<open>leaf_walk_rcu\<close> started at the root with a key
  \<open>k\<close> returns: it gives the leaf with the smallest key greater than or equal to \<open>k\<close> and
  stores the parent of that leaf in \<^verbatim>\<open>*tn\<close>, or it gives NULL when every leaf has a key
  below \<open>k\<close>. And \<^verbatim>\<open>fib_table_dump\<close>, started with key 0 and with no error from
  \<^verbatim>\<open>fn_trie_dump_leaf\<close>, returns after handing every leaf of the trie to
  \<^verbatim>\<open>fn_trie_dump_leaf\<close> once, in strictly increasing key order.
\<close>

theorem leaf_walk_key_order:
  assumes ks: "key_structure t"
  shows "(\<exists>r tp. leaf_walk_rcu t [] k = Some (r, tp) \<and>
            (case r of
               None \<Rightarrow> \<forall>lp l. trie_leaf t lp l \<longrightarrow> key l < k
             | Some lp \<Rightarrow> tp = butlast lp \<and>
                 (\<exists>l. trie_leaf t lp l \<and> k \<le> key l \<and>
                      (\<forall>lp' l'. trie_leaf t lp' l' \<and> k \<le> key l' \<longrightarrow> key l \<le> key l')))) \<and>
         ((\<forall>l. 0 \<le> dump_leaf l) \<longrightarrow>
            (\<exists>kf ls. fib_table_dump dump_leaf t 0 0 = Some (None, kf, int (length ls), ls) \<and>
               sorted_wrt (\<lambda>a b. key a < key b) ls \<and> set ls = {l. \<exists>lp. trie_leaf t lp l}))"
proof (intro conjI impI)
  note lw = leaf_walk_rcu_root [OF ks, of k]
  note srt = leaves_sorted [OF ks]
  show "\<exists>r tp. leaf_walk_rcu t [] k = Some (r, tp) \<and>
            (case r of
               None \<Rightarrow> \<forall>lp l. trie_leaf t lp l \<longrightarrow> key l < k
             | Some lp \<Rightarrow> tp = butlast lp \<and>
                 (\<exists>l. trie_leaf t lp l \<and> k \<le> key l \<and>
                      (\<forall>lp' l'. trie_leaf t lp' l' \<and> k \<le> key l' \<longrightarrow> key l \<le> key l')))"
  proof (cases "filter (key_ge k) (leaves_below t [])")
    case Nil
    then have "\<forall>x\<in>set (leaves_below t []). \<not> key_ge k x" by (simp add: filter_empty_conv)
    then have "\<forall>lp l. trie_leaf t lp l \<longrightarrow> key l < k"
      by (auto simp: trie_leaf_iff [OF ks] key_ge_def)
    then show ?thesis using lw Nil by (simp add: first_of_def)
  next
    case (Cons x R)
    then have "x \<in> set (filter (key_ge k) (leaves_below t []))" by simp
    then have xin: "(fst x, snd x) \<in> set (leaves_below t [])" and kx: "k \<le> key (snd x)"
      by (simp_all add: key_ge_def)
    have "sorted_wrt key_lt (x # R)"
      using sorted_wrt_filter [OF srt, of "key_ge k"] Cons by simp
    then have gt: "\<forall>y\<in>set R. key (snd x) < key (snd y)" by (simp add: key_lt_def)
    have least: "\<forall>lp' l'. trie_leaf t lp' l' \<and> k \<le> key l' \<longrightarrow> key (snd x) \<le> key l'"
    proof (intro allI impI)
      fix lp' l' assume a: "trie_leaf t lp' l' \<and> k \<le> key l'"
      then have "(lp', l') \<in> set (filter (key_ge k) (leaves_below t []))"
        by (simp add: trie_leaf_iff [OF ks] key_ge_def)
      then have "(lp', l') = x \<or> (lp', l') \<in> set R" using Cons by simp
      then show "key (snd x) \<le> key l'" using gt by auto
    qed
    have "trie_leaf t (fst x) (snd x)" using xin by (simp add: trie_leaf_iff [OF ks])
    then show ?thesis using lw Cons kx least by (auto simp: first_of_def)
  qed
next
  assume nn: "\<forall>l. 0 \<le> dump_leaf l"
  have "\<exists>kf. fib_table_dump_loop dump_leaf t [] 0 0 [] =
      Some (None, kf, 0 + int (length (leaves_below t [])), [] @ map snd (leaves_below t []))"
    by (rule dump_loop_ok [OF ks nn, of "[]" t "[]"])
       (simp_all add: leaves_after_root leaves_below_from_slot key_ge_def)
  then obtain kf where d: "fib_table_dump dump_leaf t 0 0 =
      Some (None, kf, int (length (map snd (leaves_below t []))), map snd (leaves_below t []))"
    by (auto simp: fib_table_dump_def)
  have s: "sorted_wrt (\<lambda>a b. key a < key b) (map snd (leaves_below t []))"
  proof -
    have "key_lt = (\<lambda>x y. key (snd x) < key (snd y))" by (intro ext) (simp add: key_lt_def)
    then show ?thesis using leaves_sorted [OF ks] by (simp add: sorted_wrt_map)
  qed
  have e: "set (map snd (leaves_below t [])) = {l. \<exists>lp. trie_leaf t lp l}"
    by (auto simp: trie_leaf_iff [OF ks] image_iff) force
  show "\<exists>kf ls. fib_table_dump dump_leaf t 0 0 = Some (None, kf, int (length ls), ls) \<and>
               sorted_wrt (\<lambda>a b. key a < key b) ls \<and> set ls = {l. \<exists>lp. trie_leaf t lp l}"
    using d s e by blast
qed

lemma key_structure_trie_10: "key_structure trie_10"
  by code_simp

theorem leaf_walk_key_order_witness:
  "key_structure trie_10 \<and>
   (\<exists>r tp. leaf_walk_rcu trie_10 [] 0x0A000001 = Some (r, tp) \<and>
            (case r of
               None \<Rightarrow> \<forall>lp l. trie_leaf trie_10 lp l \<longrightarrow> key l < 0x0A000001
             | Some lp \<Rightarrow> tp = butlast lp \<and>
                 (\<exists>l. trie_leaf trie_10 lp l \<and> 0x0A000001 \<le> key l \<and>
                      (\<forall>lp' l'. trie_leaf trie_10 lp' l' \<and> 0x0A000001 \<le> key l' \<longrightarrow> key l \<le> key l')))) \<and>
   (\<exists>kf ls. fib_table_dump (\<lambda>l. 0) trie_10 0 0 = Some (None, kf, int (length ls), ls) \<and>
               sorted_wrt (\<lambda>a b. key a < key b) ls \<and> set ls = {l. \<exists>lp. trie_leaf trie_10 lp l})"
  using leaf_walk_key_order [OF key_structure_trie_10, of "0x0A000001" "\<lambda>l. 0"]
  by (simp add: key_structure_trie_10)

lemma walk_example: "leaf_walk_rcu trie_10 [] 0x0A000001 = Some (Some [0, 2], [0])"
  by code_simp


subsection \<open>A route inserted twice with NLM\_F\_REPLACE\<close>









end
